theory Spec2Isabelle
  imports Main "HOL-Library.Word"
begin

unbundle bit_operations_syntax

section \<open>Python values, exceptions and built-ins used by \<^verbatim>\<open>modbusclient.py\<close>\<close>

text \<open>
  Python integers are unbounded: \<^typ>\<open>int\<close>. A \<^verbatim>\<open>bytes\<close> or \<^verbatim>\<open>bytearray\<close> object is a
  list of 8-bit words. A \<^verbatim>\<open>str\<close> is a \<^typ>\<open>string\<close>; its characters stand for the code
  points below 256 (the hex strings of the module are ASCII).
\<close>

type_synonym byte = "8 word"

text \<open>What a socket call raises: \<^verbatim>\<open>socket.timeout\<close>, or any other \<^verbatim>\<open>Exception\<close>.\<close>

datatype exn = SocketTimeout | OtherException

text \<open>
  The exceptions that leave a function of the module, by where they are raised:
  \<^item> \<^verbatim>\<open>bytearray([..])\<close> and \<^verbatim>\<open>extend\<close>: "byte must be in range(0, 256)";
  \<^item> \<^verbatim>\<open>bytes.fromhex\<close>: "non-hexadecimal number found";
  \<^item> \<^verbatim>\<open>int(s, 16)\<close>: "invalid literal for int() with base 16";
  \<^item> line 176: \<^verbatim>\<open>ValueError(f"Unsupported data format: {data_format}")\<close>;
  \<^item> \<^verbatim>\<open>struct.unpack\<close>: \<^verbatim>\<open>struct.error\<close>, "unpack requires a buffer of 4 bytes";
  \<^item> an exception of a socket call made outside every \<^verbatim>\<open>try\<close>.
\<close>

datatype error =
    ValueError_byte_range
  | ValueError_fromhex
  | ValueError_invalid_literal
  | ValueError_unsupported_format string
  | struct_error
  | Uncaught exn

subsection \<open>\<^verbatim>\<open>bytearray\<close>, \<^verbatim>\<open>extend\<close>, \<^verbatim>\<open>hex\<close>\<close>

definition in_byte_range :: "int \<Rightarrow> bool" where
  "in_byte_range x = (0 \<le> x \<and> x < 256)"

definition bytearray :: "int list \<Rightarrow> error + byte list" where
  "bytearray xs =
     (if list_all in_byte_range xs then Inr (map word_of_int xs)
      else Inl ValueError_byte_range)"

definition bytearray_extend :: "byte list \<Rightarrow> int list \<Rightarrow> error + byte list" where
  "bytearray_extend bs xs =
     (case bytearray xs of Inl e \<Rightarrow> Inl e | Inr ys \<Rightarrow> Inr (bs @ ys))"

definition hexdigit :: "nat \<Rightarrow> char" where
  "hexdigit n = ''0123456789abcdef'' ! n"

definition hex_byte :: "byte \<Rightarrow> string" where
  "hex_byte b = [hexdigit (unat b div 16), hexdigit (unat b mod 16)]"

definition hex :: "byte list \<Rightarrow> string" where
  "hex bs = concat (map hex_byte bs)"

subsection \<open>The checksum of \<^verbatim>\<open>easunpy.crc\<close>\<close>

text \<open>
  Modelled from the spec: the module \<^verbatim>\<open>easunpy.crc\<close> and its \<^verbatim>\<open>crc16_modbus\<close> are not
  among the sources. The spec gives the contract \<^verbatim>\<open>crc16(bytes) -> uint16\<close>, the Modbus-RTU
  CRC with polynomial 0xA001 and initial value 0xFFFF. \<open>create_request\<close> below takes the
  checksum as a parameter, so what is proved of it holds for every checksum function;
  this definition is the one the concrete frames are computed with.
\<close>

fun crc16_bits :: "nat \<Rightarrow> int \<Rightarrow> int" where
  "crc16_bits 0 crc = crc"
| "crc16_bits (Suc n) crc =
     crc16_bits n (if crc AND 1 = 1 then drop_bit 1 crc XOR 0xA001 else drop_bit 1 crc)"

fun crc16_bytes :: "int \<Rightarrow> byte list \<Rightarrow> int" where
  "crc16_bytes crc [] = crc"
| "crc16_bytes crc (b # bs) = crc16_bytes (crc16_bits 8 (crc XOR uint b)) bs"

definition crc16_modbus :: "byte list \<Rightarrow> int" where
  "crc16_modbus bs = crc16_bytes 0xFFFF bs"

section \<open>\<^verbatim>\<open>create_request\<close> (lines 103-138)\<close>

definition create_request ::
  "(byte list \<Rightarrow> int) \<Rightarrow> int \<Rightarrow> int \<Rightarrow> int \<Rightarrow> int \<Rightarrow> int \<Rightarrow> int \<Rightarrow> error + string" where
  "create_request crc16 transaction_id protocol_id unit_id function_code
       register_address register_offset =
     (case bytearray
             [unit_id,
              function_code,
              drop_bit 8 register_address AND 0xFF,
              register_address AND 0xFF,
              drop_bit 8 register_offset AND 0xFF,
              register_offset AND 0xFF] of
        Inl e \<Rightarrow> Inl e
      | Inr message_frame \<Rightarrow>
          (let crc = crc16 message_frame in
           case bytearray
                  [drop_bit 8 transaction_id AND 0xFF,
                   transaction_id AND 0xFF,
                   drop_bit 8 protocol_id AND 0xFF,
                   protocol_id AND 0xFF,
                   0x00,
                   0x0A,
                   0xFF,
                   0x04] of
             Inl e \<Rightarrow> Inl e
           | Inr command \<Rightarrow>
               (case bytearray_extend (command @ message_frame)
                       [crc AND 0xFF, drop_bit 8 crc AND 0xFF] of
                  Inl e \<Rightarrow> Inl e
                | Inr command' \<Rightarrow> Inr (hex command'))))"

section \<open>Built-ins of the decoding functions\<close>

subsection \<open>Slices \<^verbatim>\<open>s[a:b]\<close> and \<^verbatim>\<open>s[a:]\<close>\<close>

text \<open>
  A negative bound counts from the end; every bound is clamped to the string.
\<close>

definition slice_index :: "nat \<Rightarrow> int \<Rightarrow> nat" where
  "slice_index len i = (if i < 0 then nat (max 0 (i + int len)) else min (nat i) len)"

definition slice :: "'a list \<Rightarrow> int \<Rightarrow> int \<Rightarrow> 'a list" where
  "slice s a b =
     (let lo = slice_index (length s) a; hi = slice_index (length s) b
      in take (hi - lo) (drop lo s))"

definition slice_from :: "'a list \<Rightarrow> int \<Rightarrow> 'a list" where
  "slice_from s a = drop (slice_index (length s) a) s"

subsection \<open>\<^verbatim>\<open>int(s, 16)\<close>\<close>

text \<open>
  \<^verbatim>\<open>int(s, 16)\<close> strips white space on both sides, takes an optional sign, an optional
  prefix \<^verbatim>\<open>0x\<close> or \<^verbatim>\<open>0X\<close> (one underscore may follow it), then hexadecimal digits of
  either case with single underscores between them; anything else is a
  \<^verbatim>\<open>ValueError\<close>.
\<close>

definition py_isspace :: "char \<Rightarrow> bool" where
  "py_isspace c = (let n = (of_char c :: nat) in (9 \<le> n \<and> n \<le> 13) \<or> n = 32)"

definition int_isspace :: "char \<Rightarrow> bool" where
  "int_isspace c = (let n = (of_char c :: nat) in py_isspace c \<or> n = 133 \<or> n = 160)"

definition digit_value :: "char \<Rightarrow> nat option" where
  "digit_value c =
     (let n = (of_char c :: nat) in
      if 48 \<le> n \<and> n \<le> 57 then Some (n - 48)
      else if 97 \<le> n \<and> n \<le> 102 then Some (n - 87)
      else if 65 \<le> n \<and> n \<le> 70 then Some (n - 55)
      else None)"

fun scan_digits :: "bool \<Rightarrow> nat \<Rightarrow> string \<Rightarrow> (nat \<times> string) option" where
  "scan_digits prev_underscore acc [] = (if prev_underscore then None else Some (acc, []))"
| "scan_digits prev_underscore acc (c # cs) =
     (if c = CHR ''_'' then
        (if prev_underscore then None else scan_digits True acc cs)
      else
        (case digit_value c of
           Some d \<Rightarrow> scan_digits False (16 * acc + d) cs
         | None \<Rightarrow> if prev_underscore then None else Some (acc, c # cs)))"

definition strip_sign :: "string \<Rightarrow> bool \<times> string" where
  "strip_sign s =
     (case s of
        [] \<Rightarrow> (False, s)
      | c # cs \<Rightarrow>
          if c = CHR ''-'' then (True, cs)
          else if c = CHR ''+'' then (False, cs)
          else (False, s))"

definition strip_prefix16 :: "string \<Rightarrow> string" where
  "strip_prefix16 s =
     (case s of
        c # x # r \<Rightarrow>
          if c = CHR ''0'' \<and> (x = CHR ''x'' \<or> x = CHR ''X'')
          then (case r of [] \<Rightarrow> r | u # r' \<Rightarrow> if u = CHR ''_'' then r' else r)
          else s
      | _ \<Rightarrow> s)"

definition int16 :: "string \<Rightarrow> error + int" where
  "int16 s =
     (let (negative, s1) = strip_sign (dropWhile int_isspace s);
          s2 = strip_prefix16 s1
      in case s2 of
           [] \<Rightarrow> Inl ValueError_invalid_literal
         | c # cs \<Rightarrow>
             if digit_value c = None then Inl ValueError_invalid_literal
             else
               (case scan_digits False 0 s2 of
                  None \<Rightarrow> Inl ValueError_invalid_literal
                | Some (v, rest) \<Rightarrow>
                    if list_all int_isspace rest
                    then Inr (if negative then - int v else int v)
                    else Inl ValueError_invalid_literal))"

subsection \<open>\<^verbatim>\<open>bytes.fromhex\<close> and \<^verbatim>\<open>struct.unpack('f', b)\<close>\<close>

text \<open>
  \<^verbatim>\<open>bytes.fromhex\<close> reads pairs of hexadecimal digits and skips ASCII white space
  between pairs.
\<close>

fun fromhex :: "string \<Rightarrow> error + byte list" where
  "fromhex [] = Inr []"
| "fromhex [c] = (if py_isspace c then Inr [] else Inl ValueError_fromhex)"
| "fromhex (c # d # cs) =
     (if py_isspace c then fromhex (d # cs)
      else
        (case (digit_value c, digit_value d) of
           (Some hi, Some lo) \<Rightarrow>
             (case fromhex cs of
                Inl e \<Rightarrow> Inl e
              | Inr bs \<Rightarrow> Inr (word_of_nat (16 * hi + lo) # bs))
         | _ \<Rightarrow> Inl ValueError_fromhex))"

text \<open>
  A decoded register value: a Python \<^verbatim>\<open>int\<close>, or the \<^verbatim>\<open>float\<close> that \<^verbatim>\<open>struct.unpack\<close>
  makes of four bytes (kept as those bytes, in the machine's byte order).
\<close>

datatype py_value = PyInt int | PyFloat "byte list"

definition struct_unpack_f :: "byte list \<Rightarrow> error + py_value" where
  "struct_unpack_f b = (if length b = 4 then Inr (PyFloat b) else Inl struct_error)"

section \<open>\<^verbatim>\<open>decode_modbus_response\<close> (lines 140-179)\<close>

text \<open>One turn of the loop of lines 163-177: the value appended for index \<open>i\<close>.\<close>

definition decode_value :: "string \<Rightarrow> string \<Rightarrow> nat \<Rightarrow> error + py_value" where
  "decode_value data_bytes data_format i =
     (if data_format = ''Int'' then
        (case int16 (slice data_bytes (int i * 4) ((int i + 1) * 4)) of
           Inl e \<Rightarrow> Inl e
         | Inr v \<Rightarrow> Inr (PyInt (if v \<ge> 32768 then v - 65536 else v)))
      else if data_format = ''UnsignedInt'' then
        (case int16 (slice data_bytes (int i * 4) ((int i + 1) * 4)) of
           Inl e \<Rightarrow> Inl e
         | Inr v \<Rightarrow> Inr (PyInt v))
      else if data_format = ''Float'' then
        (case fromhex (slice data_bytes (int i * 4) ((int i + 1) * 4)) of
           Inl e \<Rightarrow> Inl e
         | Inr b \<Rightarrow> struct_unpack_f b)
      else Inl (ValueError_unsupported_format data_format))"

fun decode_loop :: "string \<Rightarrow> string \<Rightarrow> nat list \<Rightarrow> py_value list \<Rightarrow> error + py_value list" where
  "decode_loop data_bytes data_format [] values = Inr values"
| "decode_loop data_bytes data_format (i # rest) values =
     (case decode_value data_bytes data_format i of
        Inl e \<Rightarrow> Inl e
      | Inr v \<Rightarrow> decode_loop data_bytes data_format rest (values @ [v]))"

definition decode_modbus_response :: "string \<Rightarrow> int \<Rightarrow> string \<Rightarrow> error + py_value list" where
  "decode_modbus_response response register_count data_format =
     (case int16 (slice response 8 12) of
        Inl e \<Rightarrow> Inl e
      | Inr len \<Rightarrow>
          (let rtu_payload = slice response 12 (12 + len * 2) in
           case int16 (slice rtu_payload 8 10) of
             Inl e \<Rightarrow> Inl e
           | Inr num_data_bytes \<Rightarrow>
               (let data_bytes = slice rtu_payload 10 (10 + num_data_bytes * 2)
                in decode_loop data_bytes data_format [0..<nat register_count] [])))"

section \<open>\<^verbatim>\<open>get_registers_from_request\<close> (lines 181-195)\<close>

definition get_registers_from_request :: "string \<Rightarrow> error + int list" where
  "get_registers_from_request request =
     (let rtu_payload = slice_from request 12 in
      case int16 (slice rtu_payload 8 12) of
        Inl e \<Rightarrow> Inl e
      | Inr register_address \<Rightarrow>
          (case int16 (slice rtu_payload 12 16) of
             Inl e \<Rightarrow> Inl e
           | Inr register_count \<Rightarrow>
               Inr (map (\<lambda>i. register_address + int i) [0..<nat register_count])))"

section \<open>\<^verbatim>\<open>ModbusClient.send\<close> (lines 19-92)\<close>

subsection \<open>The network\<close>

text \<open>
  A socket call returns or raises. What the network does during one attempt is a record
  of the results of the calls the attempt can make, in the order of the source;
  \<open>tcp_recv a k\<close> is the result of the \<open>k\<close>-th \<^verbatim>\<open>client_sock.recv(1024)\<close>. The network of
  a whole call of \<^verbatim>\<open>send\<close> gives such a record for each attempt number. A call that
  blocks for ever has no result here. \<open>udp_socket\<close> is line 21; \<open>tcp_socket\<close> is lines
  48-50 (the socket and its two options), both outside every \<^verbatim>\<open>try\<close>.
\<close>

datatype 'a io = Returns 'a | Raises exn

record attempt =
  udp_socket :: "unit io"
  udp_sendto :: "unit io"
  udp_recvfrom :: "unit io"
  tcp_socket :: "unit io"
  tcp_bind :: "unit io"
  tcp_listen :: "unit io"
  tcp_accept :: "unit io"
  tcp_sendall :: "unit io"
  tcp_recv :: "nat \<Rightarrow> byte list io"

text \<open>
  The calls a run makes, in order: its trace. \<^verbatim>\<open>send\<close> pairs each call with the number of
  the attempt that made it.
\<close>

datatype call =
    UdpSocket | UdpSendto | UdpRecvfrom
  | TcpSocket | TcpBind | TcpListen | TcpAccept
  | TcpSendall "byte list" | TcpRecv
  | Sleep

type_synonym event = "nat \<times> call"

subsection \<open>\<^verbatim>\<open>send_udp_discovery\<close> (lines 19-33)\<close>

definition send_udp_discovery :: "attempt \<Rightarrow> (exn + bool) \<times> call list" where
  "send_udp_discovery a =
     (case udp_socket a of
        Raises e \<Rightarrow> (Inl e, [UdpSocket])
      | Returns _ \<Rightarrow>
          (case udp_sendto a of
             Raises e \<Rightarrow> (Inr False, [UdpSocket, UdpSendto])
           | Returns _ \<Rightarrow>
               (case udp_recvfrom a of
                  Raises e \<Rightarrow> (Inr False, [UdpSocket, UdpSendto, UdpRecvfrom])
                | Returns _ \<Rightarrow> (Inr True, [UdpSocket, UdpSendto, UdpRecvfrom]))))"

subsection \<open>The exchange on the accepted connection (lines 62-80)\<close>

text \<open>\<^verbatim>\<open>int.from_bytes(b, 'big')\<close>.\<close>

definition from_bytes_big :: "byte list \<Rightarrow> int" where
  "from_bytes_big b = foldl (\<lambda>acc x. acc * 256 + uint x) 0 b"

text \<open>
  The loop of lines 72-76. \<open>k\<close> is the number of \<^verbatim>\<open>recv\<close> calls made so far; the result
  comes with the number made in all.
\<close>

function recv_loop ::
  "(nat \<Rightarrow> byte list io) \<Rightarrow> nat \<Rightarrow> int \<Rightarrow> byte list \<Rightarrow> (exn + byte list) \<times> nat" where
  "recv_loop recv k expected_length response =
     (if int (length response) < expected_length then
        (case recv k of
           Raises e \<Rightarrow> (Inl e, Suc k)
         | Returns chunk \<Rightarrow>
             if chunk = [] then (Inr response, Suc k)
             else recv_loop recv (Suc k) expected_length (response @ chunk))
      else (Inr response, k))"
  by pat_completeness auto
termination
  by (relation "measure (\<lambda>(recv, k, expected_length, response).
        nat (expected_length - int (length response)))") auto

declare recv_loop.simps [simp del]

definition exchange :: "attempt \<Rightarrow> byte list \<Rightarrow> (exn + byte list) \<times> call list" where
  "exchange a command_bytes =
     (case tcp_sendall a of
        Raises e \<Rightarrow> (Inl e, [TcpSendall command_bytes])
      | Returns _ \<Rightarrow>
          (case tcp_recv a 0 of
             Raises e \<Rightarrow> (Inl e, [TcpSendall command_bytes, TcpRecv])
           | Returns response \<Rightarrow>
               if length response \<ge> 6 then
                 (let expected_length = from_bytes_big (slice response 4 6) + 6;
                      (r, k) = recv_loop (tcp_recv a) 1 expected_length response
                  in (r, TcpSendall command_bytes # replicate k TcpRecv))
               else (Inr response, [TcpSendall command_bytes, TcpRecv])))"

subsection \<open>One turn of the retry loop (lines 41-89)\<close>

datatype step = Return string | Continue | Propagate exn

definition send_attempt :: "attempt \<Rightarrow> byte list \<Rightarrow> step \<times> call list" where
  "send_attempt a command_bytes =
     (case send_udp_discovery a of
        (Inl e, t) \<Rightarrow> (Propagate e, t)
      | (Inr False, t) \<Rightarrow> (Continue, t @ [Sleep])
      | (Inr True, t) \<Rightarrow>
          (case tcp_socket a of
             Raises e \<Rightarrow> (Propagate e, t @ [TcpSocket])
           | Returns _ \<Rightarrow>
               (case tcp_bind a of
                  Raises e \<Rightarrow> (Continue, t @ [TcpSocket, TcpBind, Sleep])
                | Returns _ \<Rightarrow>
                    (case tcp_listen a of
                       Raises e \<Rightarrow> (Continue, t @ [TcpSocket, TcpBind, TcpListen, Sleep])
                     | Returns _ \<Rightarrow>
                         (case tcp_accept a of
                            Raises e \<Rightarrow>
                              (Continue,
                               t @ [TcpSocket, TcpBind, TcpListen, TcpAccept, Sleep])
                          | Returns _ \<Rightarrow>
                              (case exchange a command_bytes of
                                 (Inl e, t') \<Rightarrow>
                                   (Continue,
                                    t @ [TcpSocket, TcpBind, TcpListen, TcpAccept] @ t'
                                      @ [Sleep])
                               | (Inr response, t') \<Rightarrow>
                                   (Return (hex response),
                                    t @ [TcpSocket, TcpBind, TcpListen, TcpAccept]
                                      @ t')))))))"

subsection \<open>\<^verbatim>\<open>send\<close> (lines 35-92)\<close>

fun send_loop ::
  "(nat \<Rightarrow> attempt) \<Rightarrow> byte list \<Rightarrow> nat list \<Rightarrow> (error + string) \<times> event list" where
  "send_loop net command_bytes [] = (Inr '''', [])"
| "send_loop net command_bytes (n # rest) =
     (case send_attempt (net n) command_bytes of
        (Return response_hex, t) \<Rightarrow> (Inr response_hex, map (Pair n) t)
      | (Propagate e, t) \<Rightarrow> (Inl (Uncaught e), map (Pair n) t)
      | (Continue, t) \<Rightarrow>
          (let (r, t') = send_loop net command_bytes rest in (r, map (Pair n) t @ t')))"

definition send :: "(nat \<Rightarrow> attempt) \<Rightarrow> string \<Rightarrow> int \<Rightarrow> (error + string) \<times> event list" where
  "send net hex_command retry_count =
     (case fromhex hex_command of
        Inl e \<Rightarrow> (Inl e, [])
      | Inr command_bytes \<Rightarrow> send_loop net command_bytes [0..<nat retry_count])"

section \<open>The specification's notions\<close>

text \<open>
  The definitions of this section follow the words of the specification, not the source:
  they are what the functions above are compared with.
\<close>

subsection \<open>The request frame\<close>

definition high_byte :: "int \<Rightarrow> byte" where
  "high_byte x = word_of_int (x div 256 mod 256)"

definition low_byte :: "int \<Rightarrow> byte" where
  "low_byte x = word_of_int (x mod 256)"

definition message_body :: "int \<Rightarrow> int \<Rightarrow> int \<Rightarrow> int \<Rightarrow> byte list" where
  "message_body unitId functionCode registerAddress registerCount =
     [word_of_int unitId, word_of_int functionCode,
      high_byte registerAddress, low_byte registerAddress,
      high_byte registerCount, low_byte registerCount]"

definition request_frame ::
  "(byte list \<Rightarrow> int) \<Rightarrow> int \<Rightarrow> int \<Rightarrow> int \<Rightarrow> int \<Rightarrow> int \<Rightarrow> int \<Rightarrow> byte list" where
  "request_frame crc16 transactionId protocolId unitId functionCode registerAddress registerCount =
     [high_byte transactionId, low_byte transactionId,
      high_byte protocolId, low_byte protocolId, 0x00, 0x0A, 0xFF, 0x04]
     @ message_body unitId functionCode registerAddress registerCount
     @ [low_byte (crc16 (message_body unitId functionCode registerAddress registerCount)),
        high_byte (crc16 (message_body unitId functionCode registerAddress registerCount))]"

definition lower_hex_char :: "char \<Rightarrow> bool" where
  "lower_hex_char c = (c \<in> set ''0123456789abcdef'')"

subsection \<open>A synthetic response\<close>

text \<open>
  A well-formed response carrying the 16-bit values \<open>vs\<close>: four header bytes, the
  big-endian number of payload bytes, and the payload: four bytes that decoding skips,
  the number of data bytes, the values as big-endian words, and any trailing bytes (a
  checksum). The frame is hex-encoded, as \<^verbatim>\<open>send\<close> returns it.
\<close>

definition word16_bytes :: "int \<Rightarrow> byte list" where
  "word16_bytes v = [high_byte v, low_byte v]"

definition response_payload :: "byte list \<Rightarrow> int list \<Rightarrow> byte list \<Rightarrow> byte list" where
  "response_payload skipped vs trailer =
     skipped @ [word_of_nat (2 * length vs)] @ concat (map word16_bytes vs) @ trailer"

definition synthetic_response ::
  "byte list \<Rightarrow> byte list \<Rightarrow> int list \<Rightarrow> byte list \<Rightarrow> string" where
  "synthetic_response header skipped vs trailer =
     hex (header
          @ word16_bytes (int (length (response_payload skipped vs trailer)))
          @ response_payload skipped vs trailer)"

definition is_word16 :: "int \<Rightarrow> bool" where
  "is_word16 v = (0 \<le> v \<and> v < 65536)"

subsection \<open>How an attempt ends\<close>

text \<open>
  The failures of an attempt, in the words of the specification. The discovery fails
  "on timeout or any socket error" (section 4.2): when creating the socket, sending the
  datagram or waiting for the answer raises. Accepting fails when the discovery has
  succeeded and creating or configuring the listening socket, binding, listening or
  accepting raises (sections 4.3 and 4.5). The exchange fails when both have succeeded
  and writing the request or a read raises.
\<close>

fun raises :: "'a io \<Rightarrow> bool" where
  "raises (Raises e) = True"
| "raises (Returns x) = False"

definition fails_at_discovery :: "attempt \<Rightarrow> bool" where
  "fails_at_discovery a =
     (raises (udp_socket a) \<or> raises (udp_sendto a) \<or> raises (udp_recvfrom a))"

definition discovered :: "attempt \<Rightarrow> bool" where
  "discovered a =
     (\<not> raises (udp_socket a) \<and> \<not> raises (udp_sendto a) \<and> \<not> raises (udp_recvfrom a))"

definition fails_at_accept :: "attempt \<Rightarrow> bool" where
  "fails_at_accept a =
     (discovered a
      \<and> (raises (tcp_socket a) \<or> raises (tcp_bind a) \<or> raises (tcp_listen a)
         \<or> raises (tcp_accept a)))"

definition accepted :: "attempt \<Rightarrow> bool" where
  "accepted a =
     (\<not> raises (tcp_socket a) \<and> \<not> raises (tcp_bind a) \<and> \<not> raises (tcp_listen a)
      \<and> \<not> raises (tcp_accept a))"

definition fails_at_exchange :: "attempt \<Rightarrow> byte list \<Rightarrow> bool" where
  "fails_at_exchange a request = (discovered a \<and> accepted a \<and> isl (fst (exchange a request)))"

definition attempt_fails :: "attempt \<Rightarrow> byte list \<Rightarrow> bool" where
  "attempt_fails a request =
     (fails_at_discovery a \<or> fails_at_accept a \<or> fails_at_exchange a request)"

definition exchanges :: "attempt \<Rightarrow> byte list \<Rightarrow> byte list \<Rightarrow> bool" where
  "exchanges a request response =
     (discovered a \<and> accepted a \<and> fst (exchange a request) = Inr response)"

text \<open>
  Among the failures, an error of the attempt while it creates or configures a socket:
  the datagram socket of line 21, or the listening socket of lines 48-50 once the
  discovery has succeeded.
\<close>

definition socket_error :: "attempt \<Rightarrow> bool" where
  "socket_error a = (raises (udp_socket a) \<or> (discovered a \<and> raises (tcp_socket a)))"

text \<open>The bytes accumulated from the chunks \<open>0, \<dots>, k\<close> of a connection.\<close>

definition accumulated :: "(nat \<Rightarrow> byte list) \<Rightarrow> nat \<Rightarrow> byte list" where
  "accumulated chunks k = concat (map chunks [0..<Suc k])"

definition expectedLength :: "byte list \<Rightarrow> nat" where
  "expectedLength first = 256 * unat (first ! 4) + unat (first ! 5) + 6"

subsection \<open>Example networks\<close>

text \<open>
  A device that answers the discovery, connects back and sends the given chunks, then
  closes the connection; one that never answers the discovery; and a host on which no
  datagram socket can be created.
\<close>

definition answering :: "byte list list \<Rightarrow> attempt" where
  "answering chunks =
     \<lparr>udp_socket = Returns (), udp_sendto = Returns (), udp_recvfrom = Returns (),
      tcp_socket = Returns (), tcp_bind = Returns (), tcp_listen = Returns (),
      tcp_accept = Returns (), tcp_sendall = Returns (),
      tcp_recv = (\<lambda>k. if k < length chunks then Returns (chunks ! k) else Returns [])\<rparr>"

definition silent :: attempt where
  "silent = (answering [])\<lparr>udp_recvfrom := Raises SocketTimeout\<rparr>"

definition socketless :: attempt where
  "socketless = (answering [])\<lparr>udp_socket := Raises OtherException\<rparr>"

section \<open>Facts about the built-ins\<close>

subsection \<open>Hexadecimal digits\<close>

lemma hexdigit_table:
  "list_all (\<lambda>n. digit_value (hexdigit n) = Some n \<and> \<not> int_isspace (hexdigit n)
      \<and> \<not> py_isspace (hexdigit n)
      \<and> hexdigit n \<noteq> CHR ''-'' \<and> hexdigit n \<noteq> CHR ''+'' \<and> hexdigit n \<noteq> CHR ''_''
      \<and> hexdigit n \<noteq> CHR ''x'' \<and> hexdigit n \<noteq> CHR ''X'' \<and> lower_hex_char (hexdigit n))
    [0..<16]"
  by code_simp

lemma hexdigit_props:
  assumes "n < 16"
  shows "digit_value (hexdigit n) = Some n" and "\<not> int_isspace (hexdigit n)"
    and "\<not> py_isspace (hexdigit n)"
    and "hexdigit n \<noteq> CHR ''-''" and "hexdigit n \<noteq> CHR ''+''" and "hexdigit n \<noteq> CHR ''_''"
    and "hexdigit n \<noteq> CHR ''x''" and "hexdigit n \<noteq> CHR ''X''"
    and "lower_hex_char (hexdigit n)"
proof -
  from assms have "n \<in> set [0..<16]" by simp
  with hexdigit_table show "digit_value (hexdigit n) = Some n" and "\<not> int_isspace (hexdigit n)"
    and "\<not> py_isspace (hexdigit n)"
    and "hexdigit n \<noteq> CHR ''-''" and "hexdigit n \<noteq> CHR ''+''" and "hexdigit n \<noteq> CHR ''_''"
    and "hexdigit n \<noteq> CHR ''x''" and "hexdigit n \<noteq> CHR ''X''"
    and "lower_hex_char (hexdigit n)"
    unfolding list_all_iff by blast+
qed

lemma byte_nibbles: "unat (b :: byte) div 16 < 16" "unat b mod 16 < 16"
proof -
  have "unat b < 2 ^ LENGTH(8)" by (rule unsigned_less)
  then have "unat b < 256" by simp
  then show "unat b div 16 < 16" by simp
  show "unat b mod 16 < 16" by simp
qed

lemma hex_Nil [simp]: "hex [] = []"
  by (simp add: hex_def)

lemma hex_Cons: "hex (b # bs) = hexdigit (unat b div 16) # hexdigit (unat b mod 16) # hex bs"
  by (simp add: hex_def hex_byte_def)

lemma length_hex: "length (hex bs) = 2 * length bs"
  by (induction bs) (simp_all add: hex_Cons)

lemma lower_hex_chars: "list_all lower_hex_char (hex bs)"
  by (induction bs) (simp_all add: hex_Cons hexdigit_props byte_nibbles)

lemma drop_hex: "drop (2 * k) (hex bs) = hex (drop k bs)"
proof (induction bs arbitrary: k)
  case Nil
  then show ?case by simp
next
  case (Cons b bs)
  then show ?case by (cases k) (simp_all add: hex_Cons)
qed

lemma take_hex: "take (2 * k) (hex bs) = hex (take k bs)"
proof (induction bs arbitrary: k)
  case Nil
  then show ?case by simp
next
  case (Cons b bs)
  then show ?case by (cases k) (simp_all add: hex_Cons)
qed

lemma fromhex_hex: "fromhex (hex bs) = Inr bs"
proof (induction bs)
  case Nil
  then show ?case by simp
next
  case (Cons b bs)
  have "16 * (unat b div 16) + unat b mod 16 = unat b" by simp
  with Cons show ?case
    by (simp add: hex_Cons hexdigit_props byte_nibbles)
qed

subsection \<open>\<^verbatim>\<open>int(s, 16)\<close> on the hex encoding of bytes\<close>

lemma scan_digits_hex:
  "scan_digits False acc (hex bs) = Some (foldl (\<lambda>a x. a * 256 + unat x) acc bs, [])"
proof (induction bs arbitrary: acc)
  case Nil
  then show ?case by simp
next
  case (Cons b bs)
  have eq: "16 * (16 * acc + unat b div 16) + unat b mod 16 = acc * 256 + unat b"
    by simp
  have "scan_digits False acc (hex (b # bs))
          = scan_digits False (16 * (16 * acc + unat b div 16) + unat b mod 16) (hex bs)"
    by (simp add: hex_Cons hexdigit_props byte_nibbles)
  also have "\<dots> = scan_digits False (acc * 256 + unat b) (hex bs)"
    by (simp only: eq)
  finally show ?case by (simp add: Cons.IH)
qed

lemma from_bytes_big_foldl:
  "int (foldl (\<lambda>a x. a * 256 + unat x) acc bs) = foldl (\<lambda>a x. a * 256 + uint x) (int acc) bs"
  by (induction bs arbitrary: acc) simp_all

lemma int16_hex:
  assumes "bs \<noteq> []"
  shows "int16 (hex bs) = Inr (from_bytes_big bs)"
proof -
  from assms obtain b bs' where bs: "bs = b # bs'" by (cases bs) auto
  let ?c = "hexdigit (unat b div 16)" and ?d = "hexdigit (unat b mod 16)"
  have s: "hex bs = ?c # ?d # hex bs'" by (simp add: bs hex_Cons)
  have d: "dropWhile int_isspace (hex bs) = hex bs"
    by (simp add: s hexdigit_props byte_nibbles)
  have sg: "strip_sign (hex bs) = (False, hex bs)"
    by (simp add: s strip_sign_def hexdigit_props byte_nibbles)
  have pf: "strip_prefix16 (hex bs) = hex bs"
    by (simp add: s strip_prefix16_def hexdigit_props byte_nibbles)
  have c: "hex bs = c # cs \<Longrightarrow> digit_value c \<noteq> None" for c cs
    by (auto simp: s hexdigit_props byte_nibbles)
  have ne: "hex bs \<noteq> []" by (simp add: s)
  have "int16 (hex bs) = Inr (int (foldl (\<lambda>a x. a * 256 + unat x) 0 bs))"
    using c ne by (auto simp: int16_def Let_def d sg pf scan_digits_hex split: list.split)
  then show ?thesis
    by (simp add: from_bytes_big_foldl from_bytes_big_def)
qed

subsection \<open>Slices\<close>

lemma slice_nonneg:
  assumes "0 \<le> a" and "0 \<le> b"
  shows "slice s a b = take (nat b - nat a) (drop (nat a) s)"
proof (cases "nat a \<le> length s")
  case True
  with assms show ?thesis
    by (auto simp: slice_def slice_index_def Let_def min_def)
next
  case False
  with assms show ?thesis
    by (auto simp: slice_def slice_index_def Let_def min_def)
qed

lemma slice_from_nonneg: "0 \<le> a \<Longrightarrow> slice_from s a = drop (nat a) s"
  by (auto simp: slice_from_def slice_index_def min_def)

lemma slice_hex:
  "slice (hex bs) (2 * int i) (2 * int j) = hex (take (j - i) (drop i bs))"
proof -
  have "slice (hex bs) (2 * int i) (2 * int j) = take (2 * j - 2 * i) (drop (2 * i) (hex bs))"
    by (simp add: slice_nonneg nat_mult_distrib)
  also have "2 * j - 2 * i = 2 * (j - i)" by simp
  finally show ?thesis by (simp only: drop_hex take_hex)
qed

subsection \<open>Bytes of an integer\<close>

lemma and_255: "(x :: int) AND 0xFF = x mod 256"
proof -
  have "(0xFF :: int) = mask 8" by (simp add: mask_eq_exp_minus_1)
  then have "x AND 0xFF = take_bit 8 x" by (simp only: take_bit_eq_mask)
  then show ?thesis by (simp add: take_bit_eq_mod)
qed

lemma in_byte_range_mod: "in_byte_range (x mod 256)"
  by (simp add: in_byte_range_def)

lemma uint_low_byte: "uint (low_byte x) = x mod 256"
  by (simp add: low_byte_def uint_word_of_int)

lemma uint_high_byte: "uint (high_byte x) = x div 256 mod 256"
  by (simp add: high_byte_def uint_word_of_int)

lemma from_bytes_word16:
  assumes "is_word16 v"
  shows "from_bytes_big (word16_bytes v) = v"
proof -
  from assms have "v div 256 < 256" and "0 \<le> v div 256" by (auto simp: is_word16_def)
  then have "v div 256 mod 256 = v div 256" by simp
  then show ?thesis
    by (simp add: from_bytes_big_def word16_bytes_def uint_low_byte uint_high_byte)
qed

subsection \<open>\<^verbatim>\<open>create_request\<close> builds the frame of the specification\<close>

lemma create_request_hex:
  assumes "in_byte_range u" and "in_byte_range f"
  shows "create_request crc t p u f a c = Inr (hex (request_frame crc t p u f a c))"
proof -
  have body: "bytearray [u, f, drop_bit 8 a AND 0xFF, a AND 0xFF, drop_bit 8 c AND 0xFF, c AND 0xFF]
                = Inr (message_body u f a c)"
    using assms
    by (simp add: bytearray_def and_255 drop_bit_eq_div in_byte_range_mod message_body_def
          high_byte_def low_byte_def)
  have hd: "bytearray [drop_bit 8 t AND 0xFF, t AND 0xFF, drop_bit 8 p AND 0xFF, p AND 0xFF,
                       0x00, 0x0A, 0xFF, 0x04]
              = Inr [high_byte t, low_byte t, high_byte p, low_byte p, 0x00, 0x0A, 0xFF, 0x04]"
    by (simp add: bytearray_def and_255 drop_bit_eq_div in_byte_range_mod high_byte_def low_byte_def)
       (simp add: in_byte_range_def)
  have ext: "bytearray_extend bs [x AND 0xFF, drop_bit 8 x AND 0xFF] = Inr (bs @ [low_byte x, high_byte x])"
    for bs x
    by (simp add: bytearray_extend_def bytearray_def and_255 drop_bit_eq_div in_byte_range_mod
          high_byte_def low_byte_def)
  show ?thesis
    unfolding create_request_def body hd
    by (simp add: Let_def ext request_frame_def)
qed

lemma create_request_out_of_range:
  assumes "\<not> (in_byte_range u \<and> in_byte_range f)"
  shows "create_request crc t p u f a c = Inl ValueError_byte_range"
  using assms by (auto simp: create_request_def bytearray_def)

lemma length_request_frame: "length (request_frame crc t p u f a c) = 16"
  by (simp add: request_frame_def message_body_def)

lemma map_upto_int: "map (\<lambda>i. a + int i) [0..<n] = [a..a + int n - 1]"
proof (induction n)
  case 0
  then show ?case by simp
next
  case (Suc n)
  have "[a..a + int (Suc n) - 1] = [a..a + int n - 1] @ [a + int n]"
    using upto_rec2 [of a "a + int n"] by simp
  with Suc show ?case by simp
qed

lemma mod_65536_bytes:
  "high_byte (x mod 2 ^ 16) = high_byte x" "low_byte (x mod 2 ^ 16) = low_byte x"
proof -
  have e: "x mod 65536 = 256 * (x div 256 mod 256) + x mod 256"
    using zmod_zmult2_eq [of 256 x 256] by simp
  have "(256 * (x div 256 mod 256) + x mod 256) div 256 = x div 256 mod 256"
    by simp
  then have "x mod 65536 div 256 = x div 256 mod 256" by (simp only: e)
  then have "x mod 65536 div 256 mod 256 = x div 256 mod 256" by simp
  then show "high_byte (x mod 2 ^ 16) = high_byte x" by (simp add: high_byte_def)
  have "x mod 65536 mod 256 = x mod 256" by (simp add: mod_mod_cancel)
  then show "low_byte (x mod 2 ^ 16) = low_byte x" by (simp add: low_byte_def)
qed

subsection \<open>The loop of \<^verbatim>\<open>decode_modbus_response\<close>\<close>

lemma decode_loop_all:
  assumes "\<And>i. i \<in> set ixs \<Longrightarrow> decode_value d fmt i = Inr (h i)"
  shows "decode_loop d fmt ixs acc = Inr (acc @ map h ixs)"
  using assms by (induction ixs arbitrary: acc) simp_all

lemma decode_loop_first:
  assumes "decode_value d fmt i = Inl e"
  shows "decode_loop d fmt (i # ixs) acc = Inl e"
  using assms by simp

lemma upt_nat_Cons: "1 \<le> n \<Longrightarrow> [0..<nat n] = 0 # [1..<nat n]"
  by (simp add: upt_conv_Cons)

lemma fromhex_length: "fromhex s = Inr b \<Longrightarrow> 2 * length b \<le> length s"
proof (induction s arbitrary: b rule: fromhex.induct)
  case 1
  then show ?case by simp
next
  case (2 c)
  then show ?case by (simp split: if_splits)
next
  case (3 c d cs)
  show ?case
  proof (cases "py_isspace c")
    case True
    with 3 show ?thesis by fastforce
  next
    case False
    with 3 show ?thesis
      by (fastforce split: option.splits sum.splits)
  qed
qed

lemma length_slice_word: "length (slice s (int i * 4) ((int i + 1) * 4)) \<le> 4"
  by (simp add: slice_nonneg nat_add_distrib nat_mult_distrib)

lemma decode_value_float:
  "decode_value d ''Float'' i = Inl ValueError_fromhex
   \<or> decode_value d ''Float'' i = Inl struct_error"
proof (cases "fromhex (slice d (int i * 4) ((int i + 1) * 4))")
  case (Inl e)
  have "fromhex s = Inl e \<Longrightarrow> e = ValueError_fromhex" for s e
    by (induction s rule: fromhex.induct) (auto split: if_splits option.splits sum.splits)
  with Inl show ?thesis by (simp add: decode_value_def)
next
  case (Inr b)
  from fromhex_length [OF this] length_slice_word [of d i] have "length b \<le> 2" by simp
  with Inr show ?thesis by (simp add: decode_value_def struct_unpack_f_def)
qed

lemma int16_error: "int16 s = Inl e \<Longrightarrow> e = ValueError_invalid_literal"
  by (auto simp: int16_def Let_def split: prod.splits list.splits option.splits if_splits)

subsection \<open>Decoding a synthetic response\<close>

lemma word_of_concat_words:
  "i < length vs \<Longrightarrow> take 2 (drop (2 * i) (concat (map word16_bytes vs))) = word16_bytes (vs ! i)"
proof (induction vs arbitrary: i)
  case Nil
  then show ?case by simp
next
  case (Cons v vs)
  show ?case
  proof (cases i)
    case 0
    then show ?thesis by (simp add: word16_bytes_def)
  next
    case (Suc j)
    with Cons show ?thesis by (simp add: word16_bytes_def)
  qed
qed

lemma length_concat_words: "length (concat (map word16_bytes vs)) = 2 * length vs"
  by (induction vs) (simp_all add: word16_bytes_def)

lemma data_word:
  assumes "i < length vs" and "list_all is_word16 vs"
  shows "int16 (slice (hex (concat (map word16_bytes vs))) (int i * 4) ((int i + 1) * 4))
           = Inr (vs ! i)"
proof -
  have "slice (hex (concat (map word16_bytes vs))) (2 * int (2 * i)) (2 * int (2 * i + 2))
          = hex (take 2 (drop (2 * i) (concat (map word16_bytes vs))))"
    by (simp only: slice_hex) simp
  moreover have "2 * int (2 * i) = int i * 4" "2 * int (2 * i + 2) = (int i + 1) * 4"
    by simp_all
  ultimately have "slice (hex (concat (map word16_bytes vs))) (int i * 4) ((int i + 1) * 4)
          = hex (word16_bytes (vs ! i))"
    using assms(1) by (simp only: word_of_concat_words)
  moreover have "is_word16 (vs ! i)"
    using assms by (simp add: list_all_length)
  moreover have "word16_bytes (vs ! i) \<noteq> []" by (simp add: word16_bytes_def)
  ultimately show ?thesis by (simp add: int16_hex from_bytes_word16)
qed

lemma uint_byte_of_nat: "n < 256 \<Longrightarrow> uint (word_of_nat n :: byte) = int n"
  by (simp add: unsigned_of_nat take_bit_nat_eq_self)

lemma decode_synthetic:
  assumes "length header = 4" and "length skipped = 4" and "length vs \<le> 127"
    and "length (response_payload skipped vs trailer) < 65536"
  shows "decode_modbus_response (synthetic_response header skipped vs trailer) n fmt
           = decode_loop (hex (concat (map word16_bytes vs))) fmt [0..<nat n] []"
proof -
  let ?payload = "response_payload skipped vs trailer"
  let ?L = "length ?payload"
  let ?bytes = "header @ word16_bytes (int ?L) @ ?payload"
  have len: "slice (hex ?bytes) 8 12 = hex (word16_bytes (int ?L))"
    using slice_hex [of ?bytes 4 6] assms(1) by (simp add: word16_bytes_def)
  have ne: "word16_bytes x \<noteq> []" for x by (simp add: word16_bytes_def)
  have L: "int16 (hex (word16_bytes (int ?L))) = Inr (int ?L)"
    using assms(4) by (simp add: int16_hex ne from_bytes_word16 is_word16_def)
  have "slice (hex ?bytes) 12 (12 + int ?L * 2) = hex (take ?L (drop 6 ?bytes))"
    using slice_hex [of ?bytes 6 "6 + ?L"] by (simp add: algebra_simps)
  then have payload: "slice (hex ?bytes) 12 (12 + int ?L * 2) = hex ?payload"
    using assms(1) by (simp add: word16_bytes_def)
  have cnt: "slice (hex ?payload) 8 10 = hex [word_of_nat (2 * length vs)]"
    using slice_hex [of ?payload 4 5] assms(2) by (simp add: response_payload_def)
  have "uint (word_of_nat (2 * length vs) :: byte) = int (2 * length vs)"
    using assms(3) by (intro uint_byte_of_nat) simp
  then have "from_bytes_big [word_of_nat (2 * length vs) :: byte] = int (2 * length vs)"
    by (simp only: from_bytes_big_def foldl.simps)
  moreover have "int16 (hex [w]) = Inr (from_bytes_big [w])" for w :: byte
    by (rule int16_hex) simp
  ultimately have B:
    "int16 (hex [word_of_nat (2 * length vs) :: byte]) = Inr (int (2 * length vs))"
    by (simp only:)
  have "slice (hex ?payload) 10 (10 + int (2 * length vs) * 2)
          = hex (take (2 * length vs) (drop 5 ?payload))"
    using slice_hex [of ?payload 5 "5 + 2 * length vs"] by (simp add: algebra_simps)
  then have data: "slice (hex ?payload) 10 (10 + int (2 * length vs) * 2)
          = hex (concat (map word16_bytes vs))"
    using assms(2) by (simp add: response_payload_def length_concat_words)
  show ?thesis
    unfolding decode_modbus_response_def synthetic_response_def
    by (simp only: len L payload cnt B data Let_def sum.case)
qed

lemma map_nth_fun: "map (\<lambda>i. f (xs ! i)) [0..<length xs] = map f xs"
  by (rule nth_equalityI) simp_all

subsection \<open>The reading loop\<close>

lemma recv_loop_stop: "\<not> int (length resp) < E \<Longrightarrow> recv_loop recv k E resp = (Inr resp, k)"
  by (subst recv_loop.simps) simp

lemma recv_loop_closed:
  "int (length resp) < E \<Longrightarrow> recv k = Returns [] \<Longrightarrow> recv_loop recv k E resp = (Inr resp, Suc k)"
  by (subst recv_loop.simps) simp

lemma recv_loop_raises:
  "int (length resp) < E \<Longrightarrow> recv k = Raises e \<Longrightarrow> recv_loop recv k E resp = (Inl e, Suc k)"
  by (subst recv_loop.simps) simp

lemma recv_loop_more:
  "int (length resp) < E \<Longrightarrow> recv k = Returns chunk \<Longrightarrow> chunk \<noteq> [] \<Longrightarrow>
   recv_loop recv k E resp = recv_loop recv (Suc k) E (resp @ chunk)"
  by (subst recv_loop.simps) simp

lemma recv_loop_calls: "k \<le> snd (recv_loop recv k E resp)"
proof (induction recv k E resp rule: recv_loop.induct)
  case (1 recv k E resp)
  show ?case
  proof (cases "int (length resp) < E")
    case short: True
    show ?thesis
    proof (cases "recv k")
      case (Returns chunk)
      show ?thesis
      proof (cases "chunk = []")
        case True
        with short Returns show ?thesis by (simp add: recv_loop_closed)
      next
        case False
        with short Returns "1.IH" [of chunk] show ?thesis
          by (simp add: recv_loop_more)
      qed
    next
      case (Raises e)
      with short show ?thesis by (simp add: recv_loop_raises)
    qed
  next
    case False
    then show ?thesis by (simp add: recv_loop_stop)
  qed
qed

lemma concat_upt_Cons:
  "k < m \<Longrightarrow> concat (map f [k..<m]) = f k @ concat (map f [Suc k..<m])"
  by (simp add: upt_conv_Cons)

lemma recv_loop_chunks:
  assumes "\<forall>i. recv i = Returns (chunks i)"
  shows "\<exists>m\<ge>k. fst (recv_loop recv k E resp) = Inr (resp @ concat (map chunks [k..<m]))
           \<and> (\<forall>j. k \<le> j \<and> j < m \<longrightarrow>
                 int (length (resp @ concat (map chunks [k..<j]))) < E \<and> chunks j \<noteq> [])
           \<and> (E \<le> int (length (resp @ concat (map chunks [k..<m])))
                 \<and> snd (recv_loop recv k E resp) = m
               \<or> int (length (resp @ concat (map chunks [k..<m]))) < E \<and> chunks m = []
                 \<and> snd (recv_loop recv k E resp) = Suc m)"
  using assms
proof (induction recv k E resp rule: recv_loop.induct)
  case (1 recv k E resp)
  then have r: "recv k = Returns (chunks k)" by simp
  show ?case
  proof (cases "int (length resp) < E")
    case False
    then show ?thesis by (intro exI [of _ k]) (simp add: recv_loop_stop)
  next
    case short: True
    show ?thesis
    proof (cases "chunks k = []")
      case True
      with short r show ?thesis by (intro exI [of _ k]) (auto simp: recv_loop_closed)
    next
      case False
      from "1.IH" [OF short r False "1.prems"]
      obtain m where m: "Suc k \<le> m"
        and res: "fst (recv_loop recv (Suc k) E (resp @ chunks k))
                    = Inr ((resp @ chunks k) @ concat (map chunks [Suc k..<m]))"
        and inv: "\<forall>j. Suc k \<le> j \<and> j < m \<longrightarrow>
                    int (length ((resp @ chunks k) @ concat (map chunks [Suc k..<j]))) < E
                    \<and> chunks j \<noteq> []"
        and fin: "E \<le> int (length ((resp @ chunks k) @ concat (map chunks [Suc k..<m])))
                    \<and> snd (recv_loop recv (Suc k) E (resp @ chunks k)) = m
                  \<or> int (length ((resp @ chunks k) @ concat (map chunks [Suc k..<m]))) < E
                    \<and> chunks m = []
                    \<and> snd (recv_loop recv (Suc k) E (resp @ chunks k)) = Suc m"
        by blast
      have step: "recv_loop recv k E resp = recv_loop recv (Suc k) E (resp @ chunks k)"
        using short r False by (rule recv_loop_more)
      have app: "(resp @ chunks k) @ concat (map chunks [Suc k..<j])
                   = resp @ concat (map chunks [k..<j])" if "k < j" for j
        using that by (simp add: concat_upt_Cons)
      have km: "k < m" using m by simp
      have inv': "int (length (resp @ concat (map chunks [k..<j]))) < E \<and> chunks j \<noteq> []"
        if "k \<le> j \<and> j < m" for j
      proof (cases "j = k")
        case True
        with short False show ?thesis by simp
      next
        case False
        with that have "Suc k \<le> j \<and> j < m" "k < j" by simp_all
        with inv app [of j] show ?thesis by metis
      qed
      show ?thesis
        using km res fin inv' unfolding step app [OF km]
        by (intro exI [of _ m]) simp
    qed
  qed
qed

lemma expected_length_eq:
  assumes "6 \<le> length b"
  shows "from_bytes_big (slice b 4 6) + 6 = int (expectedLength b)"
proof -
  from assms have "take 2 (drop 4 b) = [b ! 4, b ! 5]"
    by (auto simp: list_eq_iff_nth_eq less_Suc_eq numeral_2_eq_2)
  then have "slice b 4 6 = [b ! 4, b ! 5]"
    by (simp add: slice_nonneg)
  then show ?thesis
    by (simp add: from_bytes_big_def expectedLength_def)
qed

lemma accumulated_eq: "accumulated chunks k = chunks 0 @ concat (map chunks [1..<Suc k])"
  unfolding accumulated_def using concat_upt_Cons [of 0 "Suc k" chunks] by simp

subsection \<open>One attempt\<close>

lemma not_raises_unit: "\<not> raises x \<longleftrightarrow> x = Returns ()"
  by (cases x) simp_all

lemma send_attempt_step:
  "fst (send_attempt a request)
     = (if socket_error a then
          Propagate (case udp_socket a of Raises e \<Rightarrow> e
                       | Returns _ \<Rightarrow> (case tcp_socket a of Raises e \<Rightarrow> e))
        else if attempt_fails a request then Continue
        else (case fst (exchange a request) of Inr r \<Rightarrow> Return (hex r) | Inl e \<Rightarrow> Continue))"
  by (auto simp: send_attempt_def send_udp_discovery_def attempt_fails_def fails_at_discovery_def
        fails_at_accept_def fails_at_exchange_def discovered_def accepted_def socket_error_def
      split: io.splits sum.splits prod.splits)

lemma exchanges_not_fails:
  "exchanges a request r \<Longrightarrow> \<not> attempt_fails a request \<and> \<not> socket_error a"
  by (auto simp: exchanges_def attempt_fails_def fails_at_discovery_def fails_at_accept_def
        fails_at_exchange_def discovered_def accepted_def socket_error_def)

lemma send_attempt_fails:
  "\<not> socket_error a \<Longrightarrow> attempt_fails a request \<Longrightarrow> fst (send_attempt a request) = Continue"
  by (simp add: send_attempt_step)

lemma send_attempt_socket_error:
  "socket_error a \<Longrightarrow> \<exists>e. fst (send_attempt a request) = Propagate e"
  by (simp add: send_attempt_step)

lemma send_attempt_exchanges:
  "exchanges a request r \<Longrightarrow> fst (send_attempt a request) = Return (hex r)"
  using exchanges_not_fails [of a request r]
  by (simp add: send_attempt_step) (simp add: exchanges_def)

lemma send_attempt_Continue:
  "fst (send_attempt a request) = Continue \<Longrightarrow> attempt_fails a request \<and> \<not> socket_error a"
  by (auto simp: send_attempt_step attempt_fails_def fails_at_exchange_def socket_error_def
        fails_at_accept_def fails_at_discovery_def discovered_def accepted_def
      split: if_splits sum.splits)

lemma send_attempt_Return:
  "fst (send_attempt a request) = Return s \<Longrightarrow> \<exists>r. exchanges a request r \<and> s = hex r"
  by (auto simp: send_attempt_step exchanges_def attempt_fails_def fails_at_exchange_def
        socket_error_def fails_at_accept_def fails_at_discovery_def discovered_def accepted_def
      split: if_splits sum.splits)

lemma exchange_trace:
  assumes "fst (exchange a request) = Inr r"
  shows "\<exists>n. snd (exchange a request) = TcpSendall request # replicate (Suc n) TcpRecv"
proof (cases "tcp_sendall a")
  case (Raises e)
  with assms show ?thesis by (simp add: exchange_def)
next
  case s: (Returns u)
  show ?thesis
  proof (cases "tcp_recv a 0")
    case (Raises e)
    with assms s show ?thesis by (simp add: exchange_def)
  next
    case (Returns response)
    show ?thesis
    proof (cases "6 \<le> length response")
      case False
      with s Returns show ?thesis
        by (intro exI [of _ 0]) (simp add: exchange_def)
    next
      case True
      let ?run = "recv_loop (tcp_recv a) 1 (from_bytes_big (slice response 4 6) + 6) response"
      from recv_loop_calls [of 1 "tcp_recv a" "from_bytes_big (slice response 4 6) + 6" response]
      obtain n where "snd ?run = Suc n" by (cases "snd ?run") auto
      with True s Returns show ?thesis
        by (intro exI [of _ n]) (simp add: exchange_def Let_def split_beta)
    qed
  qed
qed

lemma send_attempt_trace:
  assumes "exchanges a request r"
  shows "\<exists>n. snd (send_attempt a request)
           = [UdpSocket, UdpSendto, UdpRecvfrom, TcpSocket, TcpBind, TcpListen, TcpAccept,
              TcpSendall request] @ replicate (Suc n) TcpRecv"
proof -
  from assms have e: "fst (exchange a request) = Inr r" by (simp add: exchanges_def)
  from exchange_trace [OF e] obtain n
    where "snd (exchange a request) = TcpSendall request # replicate (Suc n) TcpRecv" ..
  with e have "exchange a request = (Inr r, TcpSendall request # replicate (Suc n) TcpRecv)"
    by (metis prod.collapse)
  with assms show ?thesis
    by (intro exI [of _ n])
       (simp add: send_attempt_def send_udp_discovery_def exchanges_def discovered_def
          accepted_def not_raises_unit)
qed

subsection \<open>The retry loop\<close>

lemma send_loop_Cons:
  "send_loop net request (n # rest)
     = (case fst (send_attempt (net n) request) of
          Return s \<Rightarrow> (Inr s, map (Pair n) (snd (send_attempt (net n) request)))
        | Propagate e \<Rightarrow> (Inl (Uncaught e), map (Pair n) (snd (send_attempt (net n) request)))
        | Continue \<Rightarrow>
            (fst (send_loop net request rest),
             map (Pair n) (snd (send_attempt (net n) request))
               @ snd (send_loop net request rest)))"
  by (simp split: prod.splits step.splits)

lemma send_loop_first_return:
  assumes "m < length js"
    and "\<forall>j\<in>set (take m js). fst (send_attempt (net j) request) = Continue"
    and "fst (send_attempt (net (js ! m)) request) = Return s"
  shows "send_loop net request js
           = (Inr s, concat (map (\<lambda>j. map (Pair j) (snd (send_attempt (net j) request)))
                               (take (Suc m) js)))"
  using assms
proof (induction js arbitrary: m)
  case Nil
  then show ?case by simp
next
  case (Cons x xs)
  show ?case
  proof (cases m)
    case 0
    with Cons.prems show ?thesis by (simp add: send_loop_Cons del: send_loop.simps)
  next
    case (Suc m')
    with Cons.prems have "fst (send_attempt (net x) request) = Continue" by simp
    moreover from Suc Cons.prems Cons.IH [of m']
    have "send_loop net request xs
           = (Inr s, concat (map (\<lambda>j. map (Pair j) (snd (send_attempt (net j) request)))
                               (take (Suc m') xs)))"
      by simp
    ultimately show ?thesis using Suc by (simp add: send_loop_Cons del: send_loop.simps)
  qed
qed

lemma send_loop_all_fail:
  assumes "\<forall>j\<in>set js. fst (send_attempt (net j) request) = Continue"
  shows "fst (send_loop net request js) = Inr ''''"
  using assms by (induction js) (simp_all add: send_loop_Cons del: send_loop.simps(2))

lemma send_loop_Inr:
  assumes "fst (send_loop net request js) = Inr s"
  shows "(s = '''' \<and> (\<forall>j\<in>set js. fst (send_attempt (net j) request) = Continue))
       \<or> (\<exists>m<length js. (\<forall>j\<in>set (take m js). fst (send_attempt (net j) request) = Continue)
             \<and> fst (send_attempt (net (js ! m)) request) = Return s)"
  using assms
proof (induction js)
  case Nil
  then show ?case by simp
next
  case (Cons x xs)
  show ?case
  proof (cases "fst (send_attempt (net x) request)")
    case (Return s')
    with Cons.prems have "s' = s" by (simp add: send_loop_Cons del: send_loop.simps)
    with Return show ?thesis by (intro disjI2 exI [of _ 0]) simp
  next
    case (Propagate e)
    with Cons.prems show ?thesis by (simp add: send_loop_Cons del: send_loop.simps)
  next
    case Continue
    with Cons.prems have "fst (send_loop net request xs) = Inr s"
      by (simp add: send_loop_Cons del: send_loop.simps)
    from Cons.IH [OF this] show ?thesis
    proof
      assume "s = '''' \<and> (\<forall>j\<in>set xs. fst (send_attempt (net j) request) = Continue)"
      with Continue show ?thesis by simp
    next
      assume "\<exists>m<length xs. (\<forall>j\<in>set (take m xs). fst (send_attempt (net j) request) = Continue)
                \<and> fst (send_attempt (net (xs ! m)) request) = Return s"
      then obtain m where "m < length xs"
        and "\<forall>j\<in>set (take m xs). fst (send_attempt (net j) request) = Continue"
        and "fst (send_attempt (net (xs ! m)) request) = Return s"
        by blast
      with Continue show ?thesis by (intro disjI2 exI [of _ "Suc m"]) simp
    qed
  qed
qed

lemma hex_empty_iff: "hex r = [] \<longleftrightarrow> r = []"
  using length_hex [of r] by (cases r) (simp_all add: hex_Cons)

section \<open>The request frame\<close>

text \<open>
  Claim C1, as stated, fails: it speaks of every input tuple, but the unit id and the
  function code go into the \<^verbatim>\<open>bytearray\<close> of lines 110-117 as they are, and a value
  outside \<open>[0, 256)\<close> raises \<^verbatim>\<open>ValueError\<close> there: no string is returned.
\<close>

theorem create_request_frame_counterexample:
  "create_request crc16_modbus 1 1 1 300 0 1 = Inl ValueError_byte_range
   \<and> create_request crc16_modbus 1 1 (- 1) 4 0 1 = Inl ValueError_byte_range"
  by code_simp

text \<open>
  Claim C1, amended. For every input tuple whose unit id and function code are in
  \<open>[0, 256)\<close>, \<^verbatim>\<open>create_request\<close> returns the hex encoding of a 16-byte frame: 32 lowercase
  hexadecimal characters. The frame is the header
  \<open>[tidHi, tidLo, protoHi, protoLo, 0x00, 0x0A, 0xFF, 0x04]\<close>, whose bytes 4 to 7 are
  constants, then the 6-byte message body
  \<open>[unitId, functionCode, addrHi, addrLo, countHi, countLo]\<close> at bytes 8 to 13, then the
  checksum of exactly that body, low byte first. This holds for every checksum function
  and for transaction id, protocol id, address and count of any size.
\<close>

theorem create_request_frame:
  assumes "0 \<le> u" and "u < 256" and "0 \<le> f" and "f < 256"
  shows "let frame = request_frame crc t p u f a c in
           create_request crc t p u f a c = Inr (hex frame)
         \<and> length (hex frame) = 32
         \<and> list_all lower_hex_char (hex frame)
         \<and> fromhex (hex frame) = Inr frame
         \<and> length frame = 16
         \<and> take 8 frame
             = [high_byte t, low_byte t, high_byte p, low_byte p, 0x00, 0x0A, 0xFF, 0x04]
         \<and> take 6 (drop 8 frame)
             = [word_of_int u, word_of_int f, high_byte a, low_byte a, high_byte c, low_byte c]
         \<and> drop 14 frame
             = [low_byte (crc (take 6 (drop 8 frame))), high_byte (crc (take 6 (drop 8 frame)))]"
proof -
  from assms have "create_request crc t p u f a c = Inr (hex (request_frame crc t p u f a c))"
    by (simp add: create_request_hex in_byte_range_def)
  moreover have "length (hex (request_frame crc t p u f a c)) = 32"
    by (simp add: length_hex length_request_frame)
  ultimately show ?thesis
    by (simp add: Let_def lower_hex_chars fromhex_hex length_request_frame)
       (simp add: request_frame_def message_body_def)
qed

theorem create_request_frame_witness:
  "create_request crc16_modbus 1 1 1 4 0 1 = Inr ''00010001000aff0401040000000131ca''
   \<and> length ''00010001000aff0401040000000131ca'' = 32
   \<and> crc16_modbus [1, 4, 0, 0, 0, 1] = 0xCA31"
proof -
  have "hex (request_frame crc16_modbus 1 1 1 4 0 1) = ''00010001000aff0401040000000131ca''"
    by code_simp
  moreover have "crc16_modbus [1, 4, 0, 0, 0, 1] = 0xCA31"
    by code_simp
  ultimately show ?thesis
    using create_request_frame [of 1 4 crc16_modbus 1 1 0 1] by (simp add: Let_def)
qed

text \<open>
  Claim C7, as stated, fails: the unit id and the function code are not masked, and
  \<^verbatim>\<open>bytearray\<close> rejects a value outside \<open>[0, 256)\<close>, where the claim promises the frame
  of the value modulo 256.
\<close>

theorem create_request_unmasked_counterexample:
  "create_request crc16_modbus 1 1 256 4 0 1 = Inl ValueError_byte_range
   \<and> create_request crc16_modbus (1 mod 2 ^ 16) (1 mod 2 ^ 16) (256 mod 2 ^ 8) (4 mod 2 ^ 8)
         (0 mod 2 ^ 16) (1 mod 2 ^ 16)
       = Inr ''00010001000aff04000400000001301b''"
  by code_simp

text \<open>
  Claim C7, amended. With a unit id and a function code in \<open>[0, 256)\<close>,
  \<^verbatim>\<open>create_request\<close> does not fail, whatever the size of the other four integers, and
  returns the frame of the inputs reduced to their widths; with a unit id or a function
  code outside \<open>[0, 256)\<close> it raises \<^verbatim>\<open>ValueError\<close>.
\<close>

theorem create_request_truncates:
  "(0 \<le> u \<and> u < 256 \<and> 0 \<le> f \<and> f < 256 \<longrightarrow>
      (\<exists>s. create_request crc t p u f a c = Inr s)
      \<and> create_request crc t p u f a c
          = create_request crc (t mod 2 ^ 16) (p mod 2 ^ 16) (u mod 2 ^ 8) (f mod 2 ^ 8)
              (a mod 2 ^ 16) (c mod 2 ^ 16))
   \<and> (\<not> (0 \<le> u \<and> u < 256 \<and> 0 \<le> f \<and> f < 256) \<longrightarrow>
        create_request crc t p u f a c = Inl ValueError_byte_range)"
proof (intro conjI impI)
  assume r: "0 \<le> u \<and> u < 256 \<and> 0 \<le> f \<and> f < 256"
  then have uf: "in_byte_range u" "in_byte_range f" by (simp_all add: in_byte_range_def)
  then show "\<exists>s. create_request crc t p u f a c = Inr s"
    by (simp add: create_request_hex)
  from r have m: "u mod 2 ^ 8 = u" "f mod 2 ^ 8 = f" by simp_all
  have "request_frame crc (t mod 2 ^ 16) (p mod 2 ^ 16) u f (a mod 2 ^ 16) (c mod 2 ^ 16)
          = request_frame crc t p u f a c"
    by (simp only: request_frame_def message_body_def mod_65536_bytes)
  with uf show "create_request crc t p u f a c
          = create_request crc (t mod 2 ^ 16) (p mod 2 ^ 16) (u mod 2 ^ 8) (f mod 2 ^ 8)
              (a mod 2 ^ 16) (c mod 2 ^ 16)"
    by (simp only: m create_request_hex)
next
  assume "\<not> (0 \<le> u \<and> u < 256 \<and> 0 \<le> f \<and> f < 256)"
  then show "create_request crc t p u f a c = Inl ValueError_byte_range"
    by (intro create_request_out_of_range) (auto simp: in_byte_range_def)
qed

theorem create_request_truncates_witness:
  "create_request crc16_modbus 65537 (- 1) 1 4 65636 65539
     = create_request crc16_modbus 1 65535 1 4 100 3
   \<and> create_request crc16_modbus 65537 (- 1) 1 4 65636 65539
     = Inr ''0001ffff000aff04010400640003f1d4''
   \<and> create_request crc16_modbus 1 1 (- 1) 4 0 1 = Inl ValueError_byte_range"
proof -
  have "create_request crc16_modbus 1 65535 1 4 100 3 = Inr ''0001ffff000aff04010400640003f1d4''"
    by code_simp
  then show ?thesis
    using create_request_truncates [of 1 4 crc16_modbus 65537 "- 1" 65636 65539]
      create_request_truncates [of "- 1" 4 crc16_modbus 1 1 0 1]
    by simp
qed

section \<open>The registers of a request\<close>

text \<open>
  Claim C5. For inputs that fit their widths, \<^verbatim>\<open>get_registers_from_request\<close> applied to
  the string \<^verbatim>\<open>create_request\<close> returns gives the addresses
  \<open>registerAddress, \<dots>, registerAddress + registerCount - 1\<close> in order; address 100 and
  count 3 give \<open>[100, 101, 102]\<close>.
\<close>

theorem get_registers_of_request:
  assumes "0 \<le> u" and "u < 256" and "0 \<le> f" and "f < 256"
    and "0 \<le> a" and "a < 65536" and "0 \<le> c" and "c < 65536"
  shows "\<exists>request. create_request crc t p u f a c = Inr request
           \<and> get_registers_from_request request = Inr [a..a + c - 1]"
proof -
  let ?frame = "request_frame crc t p u f a c"
  from assms have req: "create_request crc t p u f a c = Inr (hex ?frame)"
    by (simp add: create_request_hex in_byte_range_def)
  have payload: "slice_from (hex ?frame) 12 = hex (drop 6 ?frame)"
    using drop_hex [of 6 ?frame] by (simp add: slice_from_nonneg)
  have addr: "slice (hex (drop 6 ?frame)) 8 12 = hex (word16_bytes a)"
    using slice_hex [of "drop 6 ?frame" 4 6]
    by (simp add: request_frame_def message_body_def word16_bytes_def)
  have count: "slice (hex (drop 6 ?frame)) 12 16 = hex (word16_bytes c)"
    using slice_hex [of "drop 6 ?frame" 6 8]
    by (simp add: request_frame_def message_body_def word16_bytes_def)
  from assms have w: "is_word16 a" "is_word16 c" by (simp_all add: is_word16_def)
  have ne: "word16_bytes x \<noteq> []" for x by (simp add: word16_bytes_def)
  from assms have "map (\<lambda>i. a + int i) [0..<nat c] = [a..a + c - 1]"
    by (simp add: map_upto_int)
  then have "get_registers_from_request (hex ?frame) = Inr [a..a + c - 1]"
    by (simp add: get_registers_from_request_def payload addr count int16_hex ne
          from_bytes_word16 w)
  with req show ?thesis by blast
qed

theorem get_registers_of_request_witness:
  "create_request crc16_modbus 7 1 1 4 100 3 = Inr ''00070001000aff04010400640003f1d4''
   \<and> get_registers_from_request ''00070001000aff04010400640003f1d4'' = Inr [100, 101, 102]"
proof -
  have "create_request crc16_modbus 7 1 1 4 100 3 = Inr ''00070001000aff04010400640003f1d4''"
    by code_simp
  moreover have "[100 .. 100 + 3 - 1] = [100, 101, 102 :: int]"
    by (simp add: upto.simps)
  ultimately show ?thesis
    using get_registers_of_request [of 1 4 100 3 crc16_modbus 7 1] by auto
qed

section \<open>Decoding a response\<close>

text \<open>
  Claim C3. Decoding with format \<^verbatim>\<open>UnsignedInt\<close> inverts the building of a well-formed
  response: for \<open>N\<close> values in \<open>[0, 65536)\<close>, the response with a correct length field,
  a byte count of \<open>2N\<close> and the values as big-endian words from payload offset 10, decoded
  with a register count of \<open>N\<close>, gives the same values in order. The byte count is one
  byte, so \<open>N \<le> 127\<close>; the length field is two bytes.
\<close>

theorem decode_unsigned_roundtrip:
  assumes "length header = 4" and "length skipped = 4"
    and "list_all (\<lambda>v. 0 \<le> v \<and> v < 65536) vs" and "length vs \<le> 127"
    and "length (response_payload skipped vs trailer) < 65536"
  shows "decode_modbus_response (synthetic_response header skipped vs trailer)
           (int (length vs)) ''UnsignedInt''
         = Inr (map PyInt vs)"
proof -
  from assms(3) have w: "list_all is_word16 vs"
    by (simp add: is_word16_def [abs_def])
  have "decode_value (hex (concat (map word16_bytes vs))) ''UnsignedInt'' i = Inr (PyInt (vs ! i))"
    if "i \<in> set [0..<length vs]" for i
  proof -
    from that w
    have "int16 (slice (hex (concat (map word16_bytes vs))) (int i * 4) ((int i + 1) * 4))
            = Inr (vs ! i)"
      by (intro data_word) simp_all
    then show ?thesis unfolding decode_value_def by simp
  qed
  then have "decode_loop (hex (concat (map word16_bytes vs))) ''UnsignedInt'' [0..<length vs] []
               = Inr ([] @ map (\<lambda>i. PyInt (vs ! i)) [0..<length vs])"
    by (rule decode_loop_all)
  moreover have "map (\<lambda>i. PyInt (vs ! i)) [0..<length vs] = map PyInt vs"
    by (rule map_nth_fun)
  ultimately show ?thesis
    using assms by (simp add: decode_synthetic)
qed

theorem decode_unsigned_roundtrip_witness:
  "synthetic_response [0, 1, 0, 1] [0xff, 4, 1, 4] [1234, 0, 65535] []
     = ''00010001000bff0401040604d20000ffff''
   \<and> decode_modbus_response ''00010001000bff0401040604d20000ffff'' 3 ''UnsignedInt''
     = Inr [PyInt 1234, PyInt 0, PyInt 65535]"
proof -
  have "synthetic_response [0, 1, 0, 1] [0xff, 4, 1, 4] [1234, 0, 65535] []
          = ''00010001000bff0401040604d20000ffff''"
    by code_simp
  then show ?thesis
    using decode_unsigned_roundtrip [of "[0, 1, 0, 1]" "[0xff, 4, 1, 4]" "[1234, 0, 65535]" "[]"]
    by (simp add: response_payload_def word16_bytes_def)
qed

text \<open>
  Claim C4. With format \<^verbatim>\<open>Int\<close> each data word \<open>v\<close> in \<open>[0, 65536)\<close> is read unsigned and
  decoded as \<open>v - 65536\<close> if \<open>v \<ge> 32768\<close> and as \<open>v\<close> otherwise; the words \<open>0xFFFF\<close>,
  \<open>0x8000\<close>, \<open>0x7FFF\<close> and \<open>0x0000\<close> decode to \<open>-1\<close>, \<open>-32768\<close>, \<open>32767\<close> and \<open>0\<close>.
\<close>

theorem decode_signed_fold:
  assumes "length header = 4" and "length skipped = 4"
    and "list_all (\<lambda>v. 0 \<le> v \<and> v < 65536) vs" and "length vs \<le> 127"
    and "length (response_payload skipped vs trailer) < 65536"
  shows "decode_modbus_response (synthetic_response header skipped vs trailer)
           (int (length vs)) ''Int''
         = Inr (map (\<lambda>v. PyInt (if v \<ge> 32768 then v - 65536 else v)) vs)"
proof -
  let ?g = "\<lambda>v. PyInt (if v \<ge> 32768 then v - 65536 else v)"
  from assms(3) have w: "list_all is_word16 vs"
    by (simp add: is_word16_def [abs_def])
  have "decode_value (hex (concat (map word16_bytes vs))) ''Int'' i = Inr (?g (vs ! i))"
    if "i \<in> set [0..<length vs]" for i
  proof -
    from that w
    have "int16 (slice (hex (concat (map word16_bytes vs))) (int i * 4) ((int i + 1) * 4))
            = Inr (vs ! i)"
      by (intro data_word) simp_all
    then show ?thesis unfolding decode_value_def by simp
  qed
  then have "decode_loop (hex (concat (map word16_bytes vs))) ''Int'' [0..<length vs] []
               = Inr ([] @ map (\<lambda>i. ?g (vs ! i)) [0..<length vs])"
    by (rule decode_loop_all)
  moreover have "map (\<lambda>i. ?g (vs ! i)) [0..<length vs] = map ?g vs"
    by (rule map_nth_fun)
  ultimately show ?thesis
    using assms by (simp add: decode_synthetic)
qed

theorem decode_signed_fold_witness:
  "synthetic_response [0, 1, 0, 1] [0xff, 4, 1, 4] [0xFFFF, 0x8000, 0x7FFF, 0x0000] [0xab, 0xcd]
     = ''00010001000fff04010408ffff80007fff0000abcd''
   \<and> decode_modbus_response ''00010001000fff04010408ffff80007fff0000abcd'' 4 ''Int''
     = Inr [PyInt (- 1), PyInt (- 32768), PyInt 32767, PyInt 0]"
proof -
  have "synthetic_response [0, 1, 0, 1] [0xff, 4, 1, 4] [0xFFFF, 0x8000, 0x7FFF, 0x0000]
          [0xab, 0xcd]
          = ''00010001000fff04010408ffff80007fff0000abcd''"
    by code_simp
  then show ?thesis
    using decode_signed_fold [of "[0, 1, 0, 1]" "[0xff, 4, 1, 4]"
        "[0xFFFF, 0x8000, 0x7FFF, 0x0000]" "[0xab, 0xcd]"]
    by (simp add: response_payload_def word16_bytes_def)
qed

text \<open>
  Claim C6, as stated, fails. The format is only looked at inside the loop over the
  registers: with a register count of 0 the call returns the empty list for any format.
  And a response too short to hold the length field fails in \<^verbatim>\<open>int(.., 16)\<close> before the
  format is looked at.
\<close>

theorem decode_unsupported_format_counterexample:
  "decode_modbus_response ''00010001000bff0401040604d20000ffff'' 0 ''Double'' = Inr []
   \<and> decode_modbus_response '''' 1 ''Double'' = Inl ValueError_invalid_literal"
  by code_simp

text \<open>
  Claim C6, amended. For a response whose length field and byte-count field are
  hexadecimal numbers and a register count of at least 1, decoding with a format other
  than \<^verbatim>\<open>Int\<close>, \<^verbatim>\<open>UnsignedInt\<close> and \<^verbatim>\<open>Float\<close> raises the \<^verbatim>\<open>ValueError\<close> of the unsupported
  format; with a register count below 1 it returns the empty list.
\<close>

theorem decode_unsupported_format:
  assumes "data_format \<noteq> ''Int''" and "data_format \<noteq> ''UnsignedInt''"
    and "data_format \<noteq> ''Float''"
    and "int16 (slice response 8 12) = Inr len"
    and "int16 (slice (slice response 12 (12 + len * 2)) 8 10) = Inr num_data_bytes"
  shows "decode_modbus_response response register_count data_format
         = (if register_count \<ge> 1 then Inl (ValueError_unsupported_format data_format)
            else Inr [])"
proof (cases "register_count \<ge> 1")
  case True
  from assms(1-3) have "decode_value d data_format 0 = Inl (ValueError_unsupported_format data_format)"
    for d by (simp add: decode_value_def)
  with True assms(4,5) show ?thesis
    by (simp add: decode_modbus_response_def Let_def upt_nat_Cons)
next
  case False
  then have "nat register_count = 0" by simp
  with False assms(4,5) show ?thesis
    by (simp add: decode_modbus_response_def Let_def)
qed

theorem decode_unsupported_format_witness:
  "decode_modbus_response ''00010001000bff0401040604d20000ffff'' 3 ''Double''
     = Inl (ValueError_unsupported_format ''Double'')
   \<and> decode_modbus_response ''00010001000bff0401040604d20000ffff'' (- 2) ''Double'' = Inr []"
proof -
  let ?r = "''00010001000bff0401040604d20000ffff''"
  have len: "int16 (slice ?r 8 12) = Inr 11"
    by code_simp
  have cnt: "int16 (slice (slice ?r 12 (12 + 11 * 2)) 8 10) = Inr 6"
    by code_simp
  from decode_unsupported_format [OF _ _ _ len cnt, of "''Double''" 3]
    decode_unsupported_format [OF _ _ _ len cnt, of "''Double''" "- 2"]
  show ?thesis by simp
qed

text \<open>
  Claim C9. With format \<^verbatim>\<open>Float\<close> and a register count of at least 1 the call never
  returns a value, whatever the response: the first turn of the loop passes at most 4
  characters to \<^verbatim>\<open>bytes.fromhex\<close>, so at most 2 bytes to the 4-byte \<^verbatim>\<open>struct.unpack\<close>,
  which raises \<^verbatim>\<open>struct.error\<close>, unless \<^verbatim>\<open>int(.., 16)\<close> or \<^verbatim>\<open>bytes.fromhex\<close> has raised
  before.
\<close>

theorem decode_float_fails:
  assumes "register_count \<ge> 1"
  shows "decode_modbus_response response register_count ''Float'' = Inl ValueError_invalid_literal
       \<or> decode_modbus_response response register_count ''Float'' = Inl ValueError_fromhex
       \<or> decode_modbus_response response register_count ''Float'' = Inl struct_error"
proof (cases "int16 (slice response 8 12)")
  case (Inl e)
  with int16_error [OF Inl] show ?thesis by (simp add: decode_modbus_response_def)
next
  case len: (Inr len)
  show ?thesis
  proof (cases "int16 (slice (slice response 12 (12 + len * 2)) 8 10)")
    case (Inl e)
    with int16_error [OF Inl] len show ?thesis by (simp add: decode_modbus_response_def Let_def)
  next
    case (Inr n)
    let ?d = "slice (slice response 12 (12 + len * 2)) 10 (10 + n * 2)"
    have "decode_modbus_response response register_count ''Float''
            = decode_loop ?d ''Float'' (0 # [1..<nat register_count]) []"
      using assms len Inr by (simp add: decode_modbus_response_def Let_def upt_nat_Cons)
    with decode_value_float [of ?d 0] show ?thesis
      by (auto simp: decode_loop_first)
  qed
qed

theorem decode_float_fails_witness:
  "(1 :: int) \<le> 3
   \<and> (decode_modbus_response ''00010001000bff0401040604d20000ffff'' 3 ''Float''
         = Inl ValueError_invalid_literal
      \<or> decode_modbus_response ''00010001000bff0401040604d20000ffff'' 3 ''Float''
         = Inl ValueError_fromhex
      \<or> decode_modbus_response ''00010001000bff0401040604d20000ffff'' 3 ''Float''
         = Inl struct_error)
   \<and> decode_modbus_response ''00010001000bff0401040604d20000ffff'' 3 ''Float''
         = Inl struct_error"
proof -
  have "decode_modbus_response ''00010001000bff0401040604d20000ffff'' 3 ''Float''
          = Inl struct_error"
    by code_simp
  with decode_float_fails [of 3 "''00010001000bff0401040604d20000ffff''"]
  show ?thesis by simp
qed

section \<open>The exchange on the connection\<close>

text \<open>
  Claim C8. Over a connection that takes the request and delivers the chunks
  \<open>chunks 0, chunks 1, \<dots>\<close>, the exchange writes the request and reads a first chunk. If
  that chunk has fewer than 6 bytes it is the whole response. Otherwise, with
  \<open>expectedLength\<close> the big-endian value of its bytes 4 and 5 plus 6, further chunks are
  appended as long as fewer than \<open>expectedLength\<close> bytes are accumulated and the chunk read
  is not empty; the exchange returns the bytes accumulated when \<open>expectedLength\<close> is
  reached or a zero-length read occurs, whichever comes first, a short accumulation being
  returned like a full one. \<open>k\<close> is the number of chunks appended to the first and
  \<open>recvs\<close> the number of reads.
\<close>

theorem exchange_reads:
  assumes "tcp_sendall a = Returns ()" and "\<forall>i. tcp_recv a i = Returns (chunks i)"
  shows "\<exists>k recvs.
           exchange a request
             = (Inr (accumulated chunks k), TcpSendall request # replicate recvs TcpRecv)
         \<and> (length (chunks 0) < 6 \<longrightarrow> k = 0 \<and> recvs = 1)
         \<and> (6 \<le> length (chunks 0) \<longrightarrow>
              (\<forall>j<k. length (accumulated chunks j) < expectedLength (chunks 0)
                     \<and> chunks (Suc j) \<noteq> [])
              \<and> (expectedLength (chunks 0) \<le> length (accumulated chunks k) \<and> recvs = Suc k
                 \<or> length (accumulated chunks k) < expectedLength (chunks 0)
                   \<and> chunks (Suc k) = [] \<and> recvs = Suc (Suc k)))"
proof (cases "6 \<le> length (chunks 0)")
  case False
  with assms have "exchange a request = (Inr (chunks 0), [TcpSendall request, TcpRecv])"
    by (simp add: exchange_def)
  with False show ?thesis
    by (intro exI [of _ 0] exI [of _ 1]) (simp add: accumulated_def)
next
  case True
  let ?E = "int (expectedLength (chunks 0))"
  let ?run = "recv_loop (tcp_recv a) 1 ?E (chunks 0)"
  from assms True have ex: "exchange a request
      = (fst ?run, TcpSendall request # replicate (snd ?run) TcpRecv)"
    by (simp add: exchange_def expected_length_eq Let_def split_beta)
  from recv_loop_chunks [OF assms(2), of 1 ?E "chunks 0"]
  obtain m where m: "1 \<le> m"
    and res: "fst ?run = Inr (chunks 0 @ concat (map chunks [1..<m]))"
    and inv: "\<forall>j. 1 \<le> j \<and> j < m \<longrightarrow>
                int (length (chunks 0 @ concat (map chunks [1..<j]))) < ?E \<and> chunks j \<noteq> []"
    and fin: "?E \<le> int (length (chunks 0 @ concat (map chunks [1..<m]))) \<and> snd ?run = m
              \<or> int (length (chunks 0 @ concat (map chunks [1..<m]))) < ?E \<and> chunks m = []
                \<and> snd ?run = Suc m"
    by blast
  from m obtain k where k: "m = Suc k" by (cases m) auto
  have inv': "length (accumulated chunks j) < expectedLength (chunks 0) \<and> chunks (Suc j) \<noteq> []"
    if "j < k" for j
  proof -
    from that k have "1 \<le> Suc j \<and> Suc j < m" by simp
    with inv have "int (length (chunks 0 @ concat (map chunks [1..<Suc j]))) < ?E
        \<and> chunks (Suc j) \<noteq> []"
      by blast
    then show ?thesis by (simp only: accumulated_eq [symmetric]) simp
  qed
  have acc: "chunks 0 @ concat (map chunks [1..<m]) = accumulated chunks k"
    by (simp only: k accumulated_eq)
  from fin have fin': "expectedLength (chunks 0) \<le> length (accumulated chunks k)
                         \<and> snd ?run = Suc k
                       \<or> length (accumulated chunks k) < expectedLength (chunks 0)
                         \<and> chunks (Suc k) = [] \<and> snd ?run = Suc (Suc k)"
  proof -
    from fin have "?E \<le> int (length (accumulated chunks k)) \<and> snd ?run = m
        \<or> int (length (accumulated chunks k)) < ?E \<and> chunks m = [] \<and> snd ?run = Suc m"
      by (simp only: acc)
    then show ?thesis by (simp add: k)
  qed
  from True ex res inv' fin' show ?thesis
    unfolding acc
    by (intro exI [of _ k] exI [of _ "snd ?run"]) auto
qed

theorem exchange_reads_witness:
  "exchange (answering [[0, 1, 0, 1, 0, 3, 1], [2], [3, 4], [5]]) [1, 4]
     = (Inr [0, 1, 0, 1, 0, 3, 1, 2, 3, 4], [TcpSendall [1, 4], TcpRecv, TcpRecv, TcpRecv])
   \<and> exchange (answering [[0, 1, 0, 1, 0, 3, 1], [2]]) [1, 4]
     = (Inr [0, 1, 0, 1, 0, 3, 1, 2], [TcpSendall [1, 4], TcpRecv, TcpRecv, TcpRecv])
   \<and> exchange (answering [[0, 1, 0, 1, 0]]) [1, 4]
     = (Inr [0, 1, 0, 1, 0], [TcpSendall [1, 4], TcpRecv])
   \<and> (\<exists>k recvs.
         exchange (answering [[0, 1, 0, 1, 0, 3, 1], [2]]) [1, 4]
           = (Inr (accumulated
                     (\<lambda>i. if i < 2 then [[0, 1, 0, 1, 0, 3, 1], [2]] ! i else []) k),
              TcpSendall [1, 4] # replicate recvs TcpRecv))"
proof -
  let ?cs = "[[0, 1, 0, 1, 0, 3, 1], [2]] :: byte list list"
  let ?chunks = "\<lambda>i. if i < 2 then ?cs ! i else []"
  have e1: "exchange (answering [[0, 1, 0, 1, 0, 3, 1], [2], [3, 4], [5]]) [1, 4]
     = (Inr [0, 1, 0, 1, 0, 3, 1, 2, 3, 4], [TcpSendall [1, 4], TcpRecv, TcpRecv, TcpRecv])"
    by code_simp
  have e2: "exchange (answering ?cs) [1, 4]
     = (Inr [0, 1, 0, 1, 0, 3, 1, 2], [TcpSendall [1, 4], TcpRecv, TcpRecv, TcpRecv])"
    by code_simp
  have e3: "exchange (answering [[0, 1, 0, 1, 0]]) [1, 4]
     = (Inr [0, 1, 0, 1, 0], [TcpSendall [1, 4], TcpRecv])"
    by code_simp
  have s: "tcp_sendall (answering ?cs) = Returns ()"
    by (simp add: answering_def)
  have r: "\<forall>i. tcp_recv (answering ?cs) i = Returns (?chunks i)"
    by (simp add: answering_def)
  from exchange_reads [OF s r, of "[1, 4]"]
  have "\<exists>k recvs. exchange (answering ?cs) [1, 4]
       = (Inr (accumulated ?chunks k), TcpSendall [1, 4] # replicate recvs TcpRecv)"
    by blast
  with e1 e2 e3 show ?thesis by (intro conjI)
qed

section \<open>The retry loop\<close>

text \<open>
  Claim C2, as stated, fails in two ways. \<^verbatim>\<open>send\<close> returns the empty string not only when
  every attempt has failed: a device that answers the discovery, connects back and closes
  the connection before sending a byte makes the first attempt succeed with an empty
  response, whose hex encoding is the empty string. And \<^verbatim>\<open>send\<close> does not return the empty
  string whenever every attempt fails: an error while the datagram socket is created
  (line 21, outside every \<^verbatim>\<open>try\<close>) is a failure of the discovery, and \<^verbatim>\<open>send\<close> raises it.
\<close>

theorem send_empty_response_counterexample:
  "fst (send (\<lambda>n. answering []) ''00010001000aff0401040000000131ca'' 2) = Inr ''''
   \<and> exchanges (answering [])
        [0, 1, 0, 1, 0, 0x0a, 0xff, 4, 1, 4, 0, 0, 0, 1, 0x31, 0xca] []
   \<and> \<not> attempt_fails (answering [])
        [0, 1, 0, 1, 0, 0x0a, 0xff, 4, 1, 4, 0, 0, 0, 1, 0x31, 0xca]
   \<and> fails_at_discovery socketless
   \<and> attempt_fails socketless
        [0, 1, 0, 1, 0, 0x0a, 0xff, 4, 1, 4, 0, 0, 0, 1, 0x31, 0xca]
   \<and> fst (send (\<lambda>n. socketless) ''00010001000aff0401040000000131ca'' 2)
       = Inl (Uncaught OtherException)"
  by code_simp

text \<open>
  Claim C2, amended. For a request that is a hex string (one that line 37 decodes), and
  leaving out the attempts that meet an error while creating or configuring a socket
  (lines 21 and 48-50):
  \<^item> if the attempts before attempt \<open>k\<close> fail at discovery, accept or exchange without
    such an error and attempt \<open>k\<close> exchanges the request for \<open>response\<close>, then \<^verbatim>\<open>send\<close>
    returns the hex encoding of \<open>response\<close> at once: every call it makes belongs to an
    attempt up to \<open>k\<close>, the last call is a read of attempt \<open>k\<close>, and the run is that of
    \<open>retry_count = k + 1\<close>;
  \<^item> if every one of the \<open>retry_count\<close> attempts fails at discovery, accept or exchange
    without such an error, \<^verbatim>\<open>send\<close> returns the empty string;
  \<^item> if \<^verbatim>\<open>send\<close> returns the empty string, either every attempt has failed so, or the
    first attempt that has not has exchanged the request for an empty response.
\<close>

theorem send_first_success:
  assumes "fromhex hex_command = Inr request"
  shows "(k < nat retry_count
            \<and> (\<forall>j<k. attempt_fails (net j) request \<and> \<not> socket_error (net j))
            \<and> exchanges (net k) request response \<longrightarrow>
          fst (send net hex_command retry_count) = Inr (hex response)
          \<and> list_all (\<lambda>(j, c). j \<le> k) (snd (send net hex_command retry_count))
          \<and> snd (send net hex_command retry_count) \<noteq> []
          \<and> last (snd (send net hex_command retry_count)) = (k, TcpRecv)
          \<and> send net hex_command retry_count = send net hex_command (int k + 1))
       \<and> ((\<forall>j<nat retry_count. attempt_fails (net j) request \<and> \<not> socket_error (net j)) \<longrightarrow>
            fst (send net hex_command retry_count) = Inr '''')
       \<and> (fst (send net hex_command retry_count) = Inr '''' \<longrightarrow>
            (\<forall>j<nat retry_count. attempt_fails (net j) request \<and> \<not> socket_error (net j))
            \<or> (\<exists>k<nat retry_count.
                  (\<forall>j<k. attempt_fails (net j) request \<and> \<not> socket_error (net j))
                  \<and> exchanges (net k) request []))"
proof (intro conjI impI)
  let ?tr = "\<lambda>j. map (Pair j) (snd (send_attempt (net j) request))"
  let ?n = "nat retry_count"
  have send: "send net hex_command rc = send_loop net request [0..<nat rc]" for rc
    using assms by (simp add: send_def)
  {
    assume a: "k < ?n \<and> (\<forall>j<k. attempt_fails (net j) request \<and> \<not> socket_error (net j))
                 \<and> exchanges (net k) request response"
    then have k: "k < ?n" and ex: "exchanges (net k) request response" by simp_all
    from a have fails: "\<forall>j\<in>set (take k [0..<n']). fst (send_attempt (net j) request) = Continue"
      if "k < n'" for n'
      using that by (simp add: send_attempt_fails)
    have ret: "fst (send_attempt (net ([0..<n'] ! k)) request) = Return (hex response)"
      if "k < n'" for n'
      using that ex by (simp add: send_attempt_exchanges)
    have run: "send_loop net request [0..<n'] = (Inr (hex response), concat (map ?tr [0..<Suc k]))"
      if "k < n'" for n'
      using send_loop_first_return [of k "[0..<n']" net request "hex response"]
        fails [OF that] ret [OF that] that
      by (simp add: take_upt)
    from run [OF k] have s1: "send net hex_command retry_count
        = (Inr (hex response), concat (map ?tr [0..<Suc k]))"
      by (simp add: send)
    have "nat (int k + 1) = Suc k" by simp
    with run [of "Suc k"] have s2: "send net hex_command (int k + 1)
        = (Inr (hex response), concat (map ?tr [0..<Suc k]))"
      by (simp only: send)
    from s1 show "fst (send net hex_command retry_count) = Inr (hex response)" by simp
    from s1 s2 show "send net hex_command retry_count = send net hex_command (int k + 1)"
      by simp
    have "list_all (\<lambda>(j, c). j \<le> k) (concat (map ?tr [0..<Suc k]))"
      by (auto simp: list_all_iff)
    with s1 show "list_all (\<lambda>(j, c). j \<le> k) (snd (send net hex_command retry_count))"
      by simp
    from send_attempt_trace [OF ex] obtain n
      where "snd (send_attempt (net k) request)
           = [UdpSocket, UdpSendto, UdpRecvfrom, TcpSocket, TcpBind, TcpListen, TcpAccept,
              TcpSendall request] @ replicate (Suc n) TcpRecv" ..
    then have "?tr k \<noteq> []" and "last (?tr k) = (k, TcpRecv)"
      by (simp_all add: last_map)
    then have "concat (map ?tr [0..<Suc k]) \<noteq> []"
      and "last (concat (map ?tr [0..<Suc k])) = (k, TcpRecv)"
      by simp_all
    with s1 show "snd (send net hex_command retry_count) \<noteq> []"
      and "last (snd (send net hex_command retry_count)) = (k, TcpRecv)"
      by simp_all
  }
  {
    assume "\<forall>j<?n. attempt_fails (net j) request \<and> \<not> socket_error (net j)"
    then have "\<forall>j\<in>set [0..<?n]. fst (send_attempt (net j) request) = Continue"
      by (simp add: send_attempt_fails)
    from send_loop_all_fail [OF this]
    show "fst (send net hex_command retry_count) = Inr ''''" by (simp add: send)
  }
  {
    assume "fst (send net hex_command retry_count) = Inr ''''"
    then have "fst (send_loop net request [0..<?n]) = Inr ''''" by (simp add: send)
    from send_loop_Inr [OF this]
    show "(\<forall>j<?n. attempt_fails (net j) request \<and> \<not> socket_error (net j))
            \<or> (\<exists>k<?n. (\<forall>j<k. attempt_fails (net j) request \<and> \<not> socket_error (net j))
                  \<and> exchanges (net k) request [])"
    proof
      assume "'''' = '''' \<and> (\<forall>j\<in>set [0..<?n]. fst (send_attempt (net j) request) = Continue)"
      then have "\<forall>j<?n. attempt_fails (net j) request \<and> \<not> socket_error (net j)"
        by (auto dest: send_attempt_Continue)
      then show ?thesis ..
    next
      assume "\<exists>m<length [0..<?n].
                (\<forall>j\<in>set (take m [0..<?n]). fst (send_attempt (net j) request) = Continue)
                \<and> fst (send_attempt (net ([0..<?n] ! m)) request) = Return ''''"
      then obtain m where m: "m < ?n"
        and f: "\<forall>j\<in>set (take m [0..<?n]). fst (send_attempt (net j) request) = Continue"
        and r: "fst (send_attempt (net ([0..<?n] ! m)) request) = Return ''''"
        by auto
      from m f have "\<forall>j<m. attempt_fails (net j) request \<and> \<not> socket_error (net j)"
        by (auto simp: take_upt dest: send_attempt_Continue)
      moreover from m r have "fst (send_attempt (net m) request) = Return ''''" by simp
      from send_attempt_Return [OF this] have "exchanges (net m) request []"
        by (metis hex_empty_iff)
      ultimately show ?thesis using m by blast
    qed
  }
qed

theorem send_first_success_witness:
  "fst (send (\<lambda>n. if n = 0 then silent else answering [[0, 1, 0, 1, 0, 3, 1], [2], [3, 4]])
          ''00010001000aff0401040000000131ca'' 3)
     = Inr ''00010001000301020304''
   \<and> last (snd (send
          (\<lambda>n. if n = 0 then silent else answering [[0, 1, 0, 1, 0, 3, 1], [2], [3, 4]])
          ''00010001000aff0401040000000131ca'' 3))
     = (1, TcpRecv)
   \<and> send (\<lambda>n. if n = 0 then silent else answering [[0, 1, 0, 1, 0, 3, 1], [2], [3, 4]])
          ''00010001000aff0401040000000131ca'' 3
     = send (\<lambda>n. if n = 0 then silent else answering [[0, 1, 0, 1, 0, 3, 1], [2], [3, 4]])
          ''00010001000aff0401040000000131ca'' 2
   \<and> fst (send (\<lambda>n. silent) ''00010001000aff0401040000000131ca'' 2) = Inr ''''"
proof -
  let ?hex = "''00010001000aff0401040000000131ca''"
  let ?request = "[0, 1, 0, 1, 0, 0x0a, 0xff, 4, 1, 4, 0, 0, 0, 1, 0x31, 0xca] :: byte list"
  let ?device = "answering [[0, 1, 0, 1, 0, 3, 1], [2], [3, 4]]"
  let ?net = "\<lambda>n :: nat. if n = 0 then silent else ?device"
  have h: "fromhex ?hex = Inr ?request"
    by code_simp
  have quiet: "attempt_fails silent ?request \<and> \<not> socket_error silent"
    by code_simp
  have answer: "exchanges ?device ?request [0, 1, 0, 1, 0, 3, 1, 2, 3, 4]"
    by code_simp
  have enc: "hex [0, 1, 0, 1, 0, 3, 1, 2, 3, 4] = ''00010001000301020304''"
    by code_simp
  from quiet have first: "\<forall>j<1. attempt_fails (?net j) ?request \<and> \<not> socket_error (?net j)"
    by simp
  from answer have second: "exchanges (?net 1) ?request [0, 1, 0, 1, 0, 3, 1, 2, 3, 4]" by simp
  from quiet have all:
    "\<forall>j<nat 2. attempt_fails ((\<lambda>n. silent) j) ?request \<and> \<not> socket_error ((\<lambda>n. silent) j)"
    by simp
  have two: "int 1 + 1 = 2" by simp
  from send_first_success [OF h, of 1 3 ?net "[0, 1, 0, 1, 0, 3, 1, 2, 3, 4]"] first second
  have c: "fst (send ?net ?hex 3) = Inr (hex [0, 1, 0, 1, 0, 3, 1, 2, 3, 4])
      \<and> list_all (\<lambda>(j, c). j \<le> 1) (snd (send ?net ?hex 3))
      \<and> snd (send ?net ?hex 3) \<noteq> []
      \<and> last (snd (send ?net ?hex 3)) = (1, TcpRecv)
      \<and> send ?net ?hex 3 = send ?net ?hex (int 1 + 1)"
    by fastforce
  from c have "fst (send ?net ?hex 3) = Inr (hex [0, 1, 0, 1, 0, 3, 1, 2, 3, 4])"
    by blast
  then have "fst (send ?net ?hex 3) = Inr ''00010001000301020304''"
    by (simp only: enc)
  moreover from c have "last (snd (send ?net ?hex 3)) = (1, TcpRecv)"
    by blast
  moreover from c have "send ?net ?hex 3 = send ?net ?hex (int 1 + 1)"
    by blast
  then have "send ?net ?hex 3 = send ?net ?hex 2"
    by (simp only: two)
  moreover from send_first_success [OF h, of 0 2 "\<lambda>n. silent" "[]"] all
  have "fst (send (\<lambda>n. silent) ?hex 2) = Inr ''''"
    by blast
  ultimately show ?thesis by (intro conjI)
qed

section \<open>\<^verbatim>\<open>send\<close> with no attempt to make\<close>

text \<open>
  Claim C10. If \<open>retry_count \<le> 0\<close>, \<^verbatim>\<open>send\<close> returns the empty string at once and makes no
  attempt: the trace is empty, so no discovery datagram is sent, no socket is bound and
  nothing is exchanged. What it returns is what a run returns whose attempts have all
  failed without an error creating or configuring a socket. The request is a hex string,
  one that line 37 decodes.
\<close>

theorem send_no_retries:
  assumes "retry_count \<le> 0" and "fromhex hex_command = Inr command_bytes"
  shows "send net hex_command retry_count = (Inr '''', [])
       \<and> ((\<forall>j<nat n. attempt_fails (net' j) command_bytes \<and> \<not> socket_error (net' j)) \<longrightarrow>
            fst (send net' hex_command n) = fst (send net hex_command retry_count))"
proof (intro conjI impI)
  from assms show none: "send net hex_command retry_count = (Inr '''', [])"
    by (simp add: send_def)
  assume "\<forall>j<nat n. attempt_fails (net' j) command_bytes \<and> \<not> socket_error (net' j)"
  then have "\<forall>j\<in>set [0..<nat n]. fst (send_attempt (net' j) command_bytes) = Continue"
    by (simp add: send_attempt_fails)
  from send_loop_all_fail [OF this] assms(2) none
  show "fst (send net' hex_command n) = fst (send net hex_command retry_count)"
    by (simp add: send_def)
qed

theorem send_no_retries_witness:
  "send (\<lambda>n. answering [[0, 1, 0, 1, 0, 1, 0xff]]) ''00010001000aff0401040000000131ca'' 0
     = (Inr '''', [])
   \<and> fst (send (\<lambda>n. silent) ''00010001000aff0401040000000131ca'' 2)
     = fst (send (\<lambda>n. answering [[0, 1, 0, 1, 0, 1, 0xff]])
              ''00010001000aff0401040000000131ca'' 0)"
proof -
  let ?request = "[0, 1, 0, 1, 0, 0x0a, 0xff, 4, 1, 4, 0, 0, 0, 1, 0x31, 0xca] :: byte list"
  have h: "fromhex ''00010001000aff0401040000000131ca'' = Inr ?request"
    by code_simp
  have "attempt_fails silent ?request \<and> \<not> socket_error silent"
    by code_simp
  then have "\<forall>j<nat 2. attempt_fails ((\<lambda>n. silent) j) ?request
                \<and> \<not> socket_error ((\<lambda>n. silent) j)"
    by simp
  with send_no_retries [OF _ h, of 0 "\<lambda>n. answering [[0, 1, 0, 1, 0, 1, 0xff]]" 2 "\<lambda>n. silent"]
  show ?thesis by simp
qed

end
